theory Spec2Isabelle
  imports Main "HOL-Library.AList" "HOL-Library.Sublist" "HOL-Library.Multiset"
begin

text \<open>
  A model of the cricket service of the backend: the rotation of API keys, the throttle,
  the in-memory caches with their background updaters, and the enrichment of a match
  record from several upstream answers; followed by the properties proved of it.
\<close>

section \<open>JavaScript values used by the cricket service\<close>

type_synonym key = string
type_synonym timestamp = int

text \<open>
  A JavaScript \<open>Error\<close> as the service inspects it: \<open>error.message\<close>,
  \<open>error.response?.data?.reason\<close> and \<open>error.response?.status\<close>.
  An absent message is the empty string (both are falsy).
\<close>

record js_error =
  message :: string
  response_reason :: "string option"
  response_status :: "nat option"

definition Error :: "string \<Rightarrow> js_error" where
  "Error msg = \<lparr>message = msg, response_reason = None, response_status = None\<rparr>"

text \<open>
  The errors the runtime itself raises in this module. The exact wording belongs to
  the engine; the service only searches it for three words.
\<close>

definition TypeError_substring :: js_error where
  "TypeError_substring = Error ''Cannot read properties of undefined (reading substring)''"

definition TypeError_status :: js_error where
  "TypeError_status = Error ''Cannot read properties of undefined (reading status)''"

definition ReferenceError_apiKey :: js_error where
  "ReferenceError_apiKey = Error ''apiKey is not defined''"

section \<open>API key management with rotation\<close>

text \<open>
  \<open>currentKeyIndex\<close> is a JavaScript number: \<open>(i + 1) % 0\<close> is \<open>NaN\<close>, and
  \<open>apiKeys[NaN]\<close> is \<open>undefined\<close>.
\<close>

datatype jsindex = Ix nat | NaN

text \<open>
  The module variables \<open>apiKeys\<close>, \<open>currentKeyIndex\<close> and \<open>keyRateLimitMap\<close>.
  A map entry is \<open>{blockedUntil: null}\<close> (\<open>Some None\<close>) or
  \<open>{blockedUntil: t}\<close> (\<open>Some (Some t)\<close>).
\<close>

record keys_state =
  apiKeys :: "key list"
  currentKeyIndex :: jsindex
  keyRateLimitMap :: "key \<rightharpoonup> timestamp option"

text \<open>\<open>keyInfo && keyInfo.blockedUntil && now < keyInfo.blockedUntil\<close>; the number 0 is falsy.\<close>

definition isBlocked :: "(key \<rightharpoonup> timestamp option) \<Rightarrow> key \<Rightarrow> timestamp \<Rightarrow> bool" where
  "isBlocked m k now =
     (case m k of
        None \<Rightarrow> False
      | Some None \<Rightarrow> False
      | Some (Some b) \<Rightarrow> b \<noteq> 0 \<and> now < b)"

text \<open>\<open>apiKeys[currentKeyIndex]\<close>: \<open>None\<close> is \<open>undefined\<close>.\<close>

definition key_at :: "key list \<Rightarrow> jsindex \<Rightarrow> key option" where
  "key_at ks i = (case i of NaN \<Rightarrow> None | Ix n \<Rightarrow> if n < length ks then Some (ks ! n) else None)"

text \<open>\<open>(currentKeyIndex + 1) % apiKeys.length\<close>\<close>

definition next_index :: "jsindex \<Rightarrow> nat \<Rightarrow> jsindex" where
  "next_index i n = (case i of NaN \<Rightarrow> NaN | Ix k \<Rightarrow> if n = 0 then NaN else Ix ((k + 1) mod n))"

text \<open>
  The \<open>while (attempts < apiKeys.length)\<close> loop of \<open>getApiKey\<close>. It returns the local
  \<open>key\<close> (\<open>None\<close> is \<open>null\<close> or \<open>undefined\<close>) and the cursor. An \<open>undefined\<close>
  array element has no map entry, so it counts as not blocked and ends the loop.
\<close>

function getApiKey_loop ::
  "key list \<Rightarrow> (key \<rightharpoonup> timestamp option) \<Rightarrow> timestamp \<Rightarrow> nat \<Rightarrow> jsindex \<Rightarrow> key option \<times> jsindex" where
  "getApiKey_loop ks m now attempts i =
     (if attempts < length ks then
        (case key_at ks i of
           None \<Rightarrow> (None, i)
         | Some k \<Rightarrow>
             if \<not> isBlocked m k now then (Some k, i)
             else getApiKey_loop ks m now (attempts + 1) (next_index i (length ks)))
      else (None, i))"
  by pat_completeness auto
termination
  by (relation "measure (\<lambda>(ks, m, now, attempts, i). length ks - attempts)") auto

declare getApiKey_loop.simps [simp del]

text \<open>Truthiness of the local \<open>key\<close>: \<open>null\<close>, \<open>undefined\<close> and the empty string are falsy.\<close>

definition key_truthy :: "key option \<Rightarrow> bool" where
  "key_truthy k = (case k of None \<Rightarrow> False | Some s \<Rightarrow> s \<noteq> [])"

text \<open>
  \<open>getApiKey\<close>: \<open>Inr None\<close> is the \<open>null\<close> returned for an empty pool. When the loop
  leaves \<open>key\<close> falsy the key at the cursor is used anyway, and the warning's
  \<open>key.substring\<close> raises a TypeError if that element is \<open>undefined\<close>.
\<close>

definition getApiKey :: "timestamp \<Rightarrow> keys_state \<Rightarrow> (js_error + key option) \<times> keys_state" where
  "getApiKey now s =
     (if apiKeys s = [] then (Inr None, s)
      else
        (case getApiKey_loop (apiKeys s) (keyRateLimitMap s) now 0 (currentKeyIndex s) of
           (k, i) \<Rightarrow>
             let s' = s\<lparr>currentKeyIndex := i\<rparr> in
             if key_truthy k then (Inr k, s')
             else (case key_at (apiKeys s) i of
                     None \<Rightarrow> (Inl TypeError_substring, s')
                   | Some k' \<Rightarrow> (Inr (Some k'), s'))))"

text \<open>\<open>markKeyAsRateLimited(key)\<close> with the default block duration of 16 minutes.\<close>

definition blockDuration :: int where
  "blockDuration = 16 * 60 * 1000"

definition markKeyAsRateLimited :: "key \<Rightarrow> timestamp \<Rightarrow> keys_state \<Rightarrow> keys_state" where
  "markKeyAsRateLimited k now s =
     s\<lparr>keyRateLimitMap := (keyRateLimitMap s)(k \<mapsto> Some (now + blockDuration)),
       currentKeyIndex := next_index (currentKeyIndex s) (length (apiKeys s))\<rparr>"

text \<open>
  The pool after \<open>initializeApiKeys\<close> has loaded the keys: every key has the entry
  \<open>{blockedUntil: null}\<close> and the cursor is 0.
\<close>

definition initial_keys :: "key list \<Rightarrow> keys_state" where
  "initial_keys ks =
     \<lparr>apiKeys = ks, currentKeyIndex = Ix 0,
      keyRateLimitMap = (\<lambda>k. if k \<in> set ks then Some None else None)\<rparr>"

text \<open>A history of pool operations, each with the clock reading it sees.\<close>

datatype pool_op = Acquire timestamp | Mark key timestamp

fun op_time :: "pool_op \<Rightarrow> timestamp" where
  "op_time (Acquire t) = t"
| "op_time (Mark k t) = t"

fun pool_step :: "pool_op \<Rightarrow> keys_state \<Rightarrow> keys_state" where
  "pool_step (Acquire t) s = snd (getApiKey t s)"
| "pool_step (Mark k t) s = markKeyAsRateLimited k t s"

definition pool_run :: "pool_op list \<Rightarrow> keys_state \<Rightarrow> keys_state" where
  "pool_run ops s = fold pool_step ops s"

section \<open>Throttling\<close>

definition THROTTLE_DELAY :: int where
  "THROTTLE_DELAY = 10000"

text \<open>
  \<open>throttleApiCall\<close> has two synchronous parts, operating on \<open>lastApiCallTime\<close>.
  On entry it reads the clock and the shared timestamp; if less than the delay has
  passed it suspends on a timer for the remaining time (\<open>Some waitTime\<close>) and leaves
  the timestamp alone, otherwise it stores the clock reading at once. When the timer
  fires, the second part stores the clock reading of that moment.
\<close>

definition throttleApiCall_enter :: "timestamp \<Rightarrow> timestamp \<Rightarrow> int option \<times> timestamp" where
  "throttleApiCall_enter now lastApiCallTime =
     (let timeSinceLastCall = now - lastApiCallTime in
      if timeSinceLastCall < THROTTLE_DELAY
      then (Some (THROTTLE_DELAY - timeSinceLastCall), lastApiCallTime)
      else (None, now))"

definition throttleApiCall_resume :: "timestamp \<Rightarrow> timestamp \<Rightarrow> timestamp" where
  "throttleApiCall_resume now lastApiCallTime = now"

section \<open>Upstream payloads\<close>

text \<open>
  The upstream answers are JSON. A field the service only copies or tests for truthiness
  is a \<open>jsval\<close>; a field it calls string methods on is a \<open>string option\<close>
  (\<open>None\<close>: absent, \<open>null\<close> or \<open>undefined\<close>); an array it iterates is a
  \<open>list option\<close> (\<open>None\<close>: absent or falsy). Where the code tests
  \<open>Array.isArray\<close> before it uses such a field, as the two cache updaters do for
  all they read, \<open>None\<close> also stands for any other value that is not an array.
  Payloads of other shapes are outside these types; on most of them the JavaScript
  raises a TypeError. Numbers are only copied or tested for zero and are kept as
  integers. A string is a list of code points below 256; a string with other code points
  is outside the type.
\<close>

datatype jsval = JUndefined | JNull | JBool bool | JNum int | JStr string

fun truthy :: "jsval \<Rightarrow> bool" where
  "truthy JUndefined = False"
| "truthy JNull = False"
| "truthy (JBool b) = b"
| "truthy (JNum n) = (n \<noteq> 0)"
| "truthy (JStr s) = (s \<noteq> [])"

text \<open>\<open>a || b\<close>\<close>

definition js_or :: "jsval \<Rightarrow> jsval \<Rightarrow> jsval" where
  "js_or a b = (if truthy a then a else b)"

text \<open>Truthiness of a string-valued field: absent and empty are falsy.\<close>

definition str_truthy :: "string option \<Rightarrow> bool" where
  "str_truthy s = (case s of None \<Rightarrow> False | Some t \<Rightarrow> t \<noteq> [])"

definition str_or :: "string option \<Rightarrow> string option \<Rightarrow> string option" where
  "str_or a b = (if str_truthy a then a else b)"

text \<open>The properties of an object, in insertion order; a missing property reads \<open>undefined\<close>.\<close>

type_synonym obj = "(string \<times> jsval) list"

definition get_prop :: "obj \<Rightarrow> string \<Rightarrow> jsval" where
  "get_prop ob k = (case map_of ob k of None \<Rightarrow> JUndefined | Some v \<Rightarrow> v)"

text \<open>\<open>{...a, ...b}\<close>: every property of \<open>b\<close> is set on a copy of \<open>a\<close>.\<close>

definition spread :: "obj \<Rightarrow> obj \<Rightarrow> obj" where
  "spread a b = fold (\<lambda>(k, v). AList.update k v) b a"

text \<open>
  \<open>toLowerCase\<close> and \<open>includes\<close>. Of the code points below 256 the runtime
  lowers the letters A to Z and the letters U+00C0 to U+00DE other than the
  multiplication sign U+00D7, each to the code point 32 above it.
\<close>

definition upper_chars :: string where
  "upper_chars = ''ABCDEFGHIJKLMNOPQRSTUVWXYZ'' @
     [CHR 0xC0, CHR 0xC1, CHR 0xC2, CHR 0xC3, CHR 0xC4, CHR 0xC5, CHR 0xC6, CHR 0xC7,
      CHR 0xC8, CHR 0xC9, CHR 0xCA, CHR 0xCB, CHR 0xCC, CHR 0xCD, CHR 0xCE, CHR 0xCF,
      CHR 0xD0, CHR 0xD1, CHR 0xD2, CHR 0xD3, CHR 0xD4, CHR 0xD5, CHR 0xD6,
      CHR 0xD8, CHR 0xD9, CHR 0xDA, CHR 0xDB, CHR 0xDC, CHR 0xDD, CHR 0xDE]"

definition lower_chars :: string where
  "lower_chars = ''abcdefghijklmnopqrstuvwxyz'' @
     [CHR 0xE0, CHR 0xE1, CHR 0xE2, CHR 0xE3, CHR 0xE4, CHR 0xE5, CHR 0xE6, CHR 0xE7,
      CHR 0xE8, CHR 0xE9, CHR 0xEA, CHR 0xEB, CHR 0xEC, CHR 0xED, CHR 0xEE, CHR 0xEF,
      CHR 0xF0, CHR 0xF1, CHR 0xF2, CHR 0xF3, CHR 0xF4, CHR 0xF5, CHR 0xF6,
      CHR 0xF8, CHR 0xF9, CHR 0xFA, CHR 0xFB, CHR 0xFC, CHR 0xFD, CHR 0xFE]"

definition lower_char :: "char \<Rightarrow> char" where
  "lower_char c = (case map_of (zip upper_chars lower_chars) c of None \<Rightarrow> c | Some d \<Rightarrow> d)"

definition toLowerCase :: "string \<Rightarrow> string" where
  "toLowerCase s = map lower_char s"

fun str_includes :: "string \<Rightarrow> string \<Rightarrow> bool" where
  "str_includes [] sub = (sub = [])"
| "str_includes (c # cs) sub = (prefix sub (c # cs) \<or> str_includes cs sub)"

text \<open>
  An object with a \<open>name\<close>: a squad member, a batter or bowler of an inning, a player
  record built by the service. \<open>props\<close> holds its other properties.
\<close>

record player =
  name :: "string option"
  props :: obj

text \<open>An element of \<open>matchData.data.players\<close>: a bare name or an object.\<close>

record raw_object =
  ro_name :: "string option"
  ro_playerName :: "string option"
  ro_player :: "string option"
  ro_props :: obj

datatype raw_player = RawString string | RawObject raw_object

text \<open>
  An inning of \<open>matchData.data.score\<close>. An element of \<open>batsmen\<close> or \<open>bowlers\<close> that
  is not an object (\<open>typeof x !== 'object'\<close>) is \<open>None\<close>.
\<close>

record score_inning =
  batsmen :: "player option list option"
  bowlers :: "player option list option"
  si_props :: obj

text \<open>
  A date string of a match, as \<open>new Date\<close> reads it: \<open>Some t\<close> is the time value in
  milliseconds, \<open>None\<close> an Invalid Date. The field itself is \<open>None\<close> when falsy.
\<close>

type_synonym datefield = "int option option"

text \<open>
  A field the service reads with \<open>a || b || []\<close> and then tests with
  \<open>Array.isArray\<close>: falsy, a truthy value that is not an array, or an array.
\<close>

datatype 'a maybe_array = Falsy | NotArray | IsArray "'a list"

text \<open>An element of the \<open>/matches\<close> list, and the \<open>data\<close> of a \<open>/match_info\<close> answer.\<close>

record match =
  matchStarted :: "bool option"
  matchEnded :: "bool option"
  score :: "score_inning list option"
  dateTimeGMT :: datefield
  date :: datefield
  hasSquad :: jsval
  teams :: "string list option"
  m_players :: "raw_player maybe_array"
  m_playerInfo :: "raw_player maybe_array"
  m_props :: obj

text \<open>A \<open>/match_squad\<close> answer lists two teams with their players.\<close>

record squad_team =
  tm_players :: "player list option"

text \<open>A \<open>/match_scorecard\<close> answer: innings with batting and bowling entries.\<close>

record batting_entry =
  batsman :: "player option"
  bat_props :: obj

record bowling_entry =
  bowler :: "player option"
  bowl_name :: "string option"
  bowl_props :: obj

record inning =
  batting :: "batting_entry list option"
  bowling :: "bowling_entry list option"
  team :: "string option"
  in_props :: obj

record scorecard_payload =
  scorecard :: "inning list option"

text \<open>
  The response envelope \<open>{status, reason, data}\<close>; \<open>data\<close> is \<open>None\<close> when falsy
  (for the list and squad endpoints: when it is not an array).
\<close>

record 'a envelope =
  status :: string
  reason :: "string option"
  data :: "'a option"

section \<open>Classification of the matches list\<close>

text \<open>The filter of \<open>updateCurrentMatchesCache\<close>.\<close>

definition hasScore :: "match \<Rightarrow> bool" where
  "hasScore m = (case score m of None \<Rightarrow> False | Some sc \<Rightarrow> length sc > 0)"

definition isLive :: "match \<Rightarrow> bool" where
  "isLive m = (matchStarted m = Some True \<and> matchEnded m = Some False)"

definition isCompletedWithScore :: "match \<Rightarrow> bool" where
  "isCompletedWithScore m = (matchStarted m = Some True \<and> matchEnded m = Some True \<and> hasScore m)"

definition liveMatches :: "match list \<Rightarrow> match list" where
  "liveMatches allMatches = filter (\<lambda>m. isLive m \<or> isCompletedWithScore m) allMatches"

text \<open>\<open>new Date(a.dateTimeGMT || a.date || 0)\<close>, as a time value.\<close>

definition dateOf :: "match \<Rightarrow> int option" where
  "dateOf a =
     (case dateTimeGMT a of
        Some d \<Rightarrow> d
      | None \<Rightarrow> (case date a of Some d \<Rightarrow> d | None \<Rightarrow> Some 0))"

text \<open>The comparator \<open>dateB - dateA\<close>; \<open>None\<close> is \<open>NaN\<close>.\<close>

definition compareDates :: "match \<Rightarrow> match \<Rightarrow> int option" where
  "compareDates a b =
     (case (dateOf a, dateOf b) of
        (Some dateA, Some dateB) \<Rightarrow> Some (dateB - dateA)
      | _ \<Rightarrow> None)"

text \<open>
  \<open>Array.prototype.sort\<close> as V8, the engine of Node.js, runs it. The result of the
  comparator is made a number, and \<open>NaN\<close> counts as 0.
\<close>

definition sortCompare :: "('a \<Rightarrow> 'a \<Rightarrow> int option) \<Rightarrow> 'a \<Rightarrow> 'a \<Rightarrow> int" where
  "sortCompare comparefn x y = (case comparefn x y of None \<Rightarrow> 0 | Some v \<Rightarrow> v)"

text \<open>
  The engine first measures the run the array begins with: strictly descending if the
  second element compares below the first, and then reversed in place; else not
  descending. The run ends before the first element that breaks it. \<open>runRest\<close>
  counts the elements of the run after its second.
\<close>

fun runRest :: "('a \<Rightarrow> 'a \<Rightarrow> int option) \<Rightarrow> bool \<Rightarrow> 'a \<Rightarrow> 'a list \<Rightarrow> nat" where
  "runRest comparefn isDescending previousElement [] = 0"
| "runRest comparefn isDescending previousElement (currentElement # rest) =
     (if (if isDescending then sortCompare comparefn currentElement previousElement \<ge> 0
          else sortCompare comparefn currentElement previousElement < 0)
      then 0
      else Suc (runRest comparefn isDescending currentElement rest))"

definition countAndMakeRun :: "('a \<Rightarrow> 'a \<Rightarrow> int option) \<Rightarrow> 'a list \<Rightarrow> nat \<times> 'a list" where
  "countAndMakeRun comparefn workArray =
     (case workArray of
        elementHigh # elementLow # rest \<Rightarrow>
          (let isDescending = sortCompare comparefn elementLow elementHigh < 0;
               runLength = 2 + runRest comparefn isDescending elementLow rest
           in (runLength,
               if isDescending then rev (take runLength workArray) @ drop runLength workArray
               else workArray))
      | _ \<Rightarrow> (length workArray, workArray))"

text \<open>
  Each element after the run is then put into the part before it by binary insertion:
  the search halves the interval, going left when the element compares below the middle
  one and right otherwise.
\<close>

function binarySearch ::
  "('a \<Rightarrow> 'a \<Rightarrow> int option) \<Rightarrow> 'a \<Rightarrow> 'a list \<Rightarrow> nat \<Rightarrow> nat \<Rightarrow> nat" where
  "binarySearch comparefn pivot workArray left right =
     (if left < right then
        (let mid = left + (right - left) div 2 in
         if sortCompare comparefn pivot (workArray ! mid) < 0
         then binarySearch comparefn pivot workArray left mid
         else binarySearch comparefn pivot workArray (mid + 1) right)
      else left)"
  by pat_completeness auto
termination
  by (relation "measure (\<lambda>(comparefn, pivot, workArray, left, right). right - left)") auto

declare binarySearch.simps [simp del]

definition binaryInsert :: "('a \<Rightarrow> 'a \<Rightarrow> int option) \<Rightarrow> 'a list \<Rightarrow> 'a \<Rightarrow> 'a list" where
  "binaryInsert comparefn sortedPart pivot =
     (let left = binarySearch comparefn pivot sortedPart 0 (length sortedPart) in
      take left sortedPart @ pivot # drop left sortedPart)"

definition binaryInsertionSort :: "('a \<Rightarrow> 'a \<Rightarrow> int option) \<Rightarrow> nat \<Rightarrow> 'a list \<Rightarrow> 'a list" where
  "binaryInsertionSort comparefn start workArray =
     foldl (binaryInsert comparefn) (take start workArray) (drop start workArray)"

text \<open>
  This is the whole of the engine's procedure for an array of fewer than 64 elements (the
  \<open>/matches\<close> endpoint answers with pages of 25). A longer array the engine cuts into
  several runs, which it merges; the list it returns is the one computed here whenever
  the comparator is consistent, the sort being stable, and may be another one when the
  comparator is not.
\<close>

definition js_sort :: "('a \<Rightarrow> 'a \<Rightarrow> int option) \<Rightarrow> 'a list \<Rightarrow> 'a list" where
  "js_sort comparefn xs =
     (if length xs < 2 then xs
      else (case countAndMakeRun comparefn xs of
              (runLength, workArray) \<Rightarrow> binaryInsertionSort comparefn runLength workArray))"

definition sortedLive :: "match list \<Rightarrow> match list" where
  "sortedLive allMatches = take 10 (js_sort compareDates (liveMatches allMatches))"

text \<open>The filter of \<open>updateUpcomingMatchesCache\<close>.\<close>

definition upcomingMatches :: "match list \<Rightarrow> match list" where
  "upcomingMatches allMatches = take 20 (filter (\<lambda>m. matchStarted m = Some False) allMatches)"

section \<open>Match enrichment\<close>

subsection \<open>Squad data\<close>

record squadData =
  team1Squad :: "player list"
  team2Squad :: "player list"
  team1PlayingXI :: "player list"
  team2PlayingXI :: "player list"
  players :: "player list"

definition formatPlayer :: "player \<Rightarrow> player" where
  "formatPlayer p =
     \<lparr>name = name p,
      props = [(''id'', get_prop (props p) ''id''),
               (''role'', get_prop (props p) ''role''),
               (''battingStyle'', get_prop (props p) ''battingStyle''),
               (''bowlingStyle'', get_prop (props p) ''bowlingStyle''),
               (''country'', get_prop (props p) ''country''),
               (''image'', js_or (get_prop (props p) ''playerImg'') JNull)]\<rparr>"

definition formatPlayers :: "player list \<Rightarrow> player list" where
  "formatPlayers ps = map formatPlayer ps"

text \<open>\<open>(squadResponse.data[i] || {}).players || []\<close>\<close>

definition teamPlayers :: "squad_team list \<Rightarrow> nat \<Rightarrow> player list" where
  "teamPlayers ts i =
     (if i < length ts then (case tm_players (ts ! i) of None \<Rightarrow> [] | Some ps \<Rightarrow> ps) else [])"

definition extractSquadData :: "squad_team list option \<Rightarrow> squadData" where
  "extractSquadData squadResponse =
     (case squadResponse of
        None \<Rightarrow>
          \<lparr>team1Squad = [], team2Squad = [], team1PlayingXI = [], team2PlayingXI = [], players = []\<rparr>
      | Some ts \<Rightarrow>
          let team1Players = teamPlayers ts 0; team2Players = teamPlayers ts 1 in
          \<lparr>team1Squad = formatPlayers team1Players,
           team2Squad = formatPlayers team2Players,
           team1PlayingXI = formatPlayers (take 11 team1Players),
           team2PlayingXI = formatPlayers (take 11 team2Players),
           players = formatPlayers team1Players @ formatPlayers team2Players\<rparr>)"

subsection \<open>Players from the live score and from the scorecard\<close>

definition has_name :: "player \<Rightarrow> bool" where
  "has_name p = str_truthy (name p)"

definition scoreBatsman :: "player \<Rightarrow> player" where
  "scoreBatsman b =
     \<lparr>name = name b,
      props = [(''runs'', get_prop (props b) ''r''),
               (''balls'', get_prop (props b) ''b''),
               (''fours'', get_prop (props b) ''4s''),
               (''sixes'', get_prop (props b) ''6s''),
               (''strikeRate'', get_prop (props b) ''sr''),
               (''role'', JStr ''Batsman''),
               (''image'', js_or (js_or (get_prop (props b) ''image'') (get_prop (props b) ''img'')) JNull)]\<rparr>"

definition scoreBowler :: "player \<Rightarrow> player" where
  "scoreBowler b =
     \<lparr>name = name b,
      props = [(''overs'', get_prop (props b) ''o''),
               (''runs'', get_prop (props b) ''r''),
               (''wickets'', get_prop (props b) ''w''),
               (''maidens'', get_prop (props b) ''m''),
               (''economy'', get_prop (props b) ''econ''),
               (''role'', JStr ''Bowler''),
               (''image'', js_or (js_or (get_prop (props b) ''image'') (get_prop (props b) ''img'')) JNull)]\<rparr>"

text \<open>The members of an array that are objects with a truthy name.\<close>

definition namedMembers :: "player option list option \<Rightarrow> player list" where
  "namedMembers xs =
     (case xs of
        None \<Rightarrow> []
      | Some l \<Rightarrow> List.map_filter (\<lambda>x. case x of None \<Rightarrow> None
                                         | Some p \<Rightarrow> if has_name p then Some p else None) l)"

definition extractPlayersFromScore :: "score_inning list \<Rightarrow> player list" where
  "extractPlayersFromScore scoreArray =
     concat (map (\<lambda>inning. map scoreBatsman (namedMembers (batsmen inning))
                          @ map scoreBowler (namedMembers (bowlers inning))) scoreArray)"

definition scorecardBatsman :: "batting_entry \<Rightarrow> player option" where
  "scorecardBatsman e =
     (case batsman e of
        None \<Rightarrow> None
      | Some b \<Rightarrow>
          if has_name b then
            Some \<lparr>name = name b,
                  props = [(''id'', get_prop (props b) ''id''),
                           (''runs'', get_prop (bat_props e) ''r''),
                           (''balls'', get_prop (bat_props e) ''b''),
                           (''fours'', get_prop (bat_props e) ''4s''),
                           (''sixes'', get_prop (bat_props e) ''6s''),
                           (''strikeRate'', get_prop (bat_props e) ''sr''),
                           (''role'', JStr ''Batsman''),
                           (''image'', JNull)]\<rparr>
          else None)"

definition scorecardBowler :: "bowling_entry \<Rightarrow> player option" where
  "scorecardBowler e =
     (case bowler e of
        None \<Rightarrow> None
      | Some b \<Rightarrow>
          if has_name b then
            Some \<lparr>name = name b,
                  props = [(''id'', get_prop (props b) ''id''),
                           (''overs'', get_prop (bowl_props e) ''o''),
                           (''runs'', get_prop (bowl_props e) ''r''),
                           (''wickets'', get_prop (bowl_props e) ''w''),
                           (''maidens'', get_prop (bowl_props e) ''m''),
                           (''economy'', get_prop (bowl_props e) ''eco''),
                           (''role'', JStr ''Bowler''),
                           (''image'', JNull)]\<rparr>
          else None)"

text \<open>\<open>x || []\<close> for an array-valued field.\<close>

definition or_empty :: "'a list option \<Rightarrow> 'a list" where
  "or_empty xs = (case xs of None \<Rightarrow> [] | Some l \<Rightarrow> l)"

text \<open>\<open>scorecardData\<close> is \<open>null\<close> or the body of a scorecard answer.\<close>

definition scorecardOf :: "scorecard_payload envelope option \<Rightarrow> inning list option" where
  "scorecardOf scorecardData =
     (case scorecardData of
        None \<Rightarrow> None
      | Some body \<Rightarrow> (case data body of None \<Rightarrow> None | Some d \<Rightarrow> Some (or_empty (scorecard d))))"

definition extractPlayersFromScorecard :: "scorecard_payload envelope option \<Rightarrow> player list" where
  "extractPlayersFromScorecard scorecardData =
     (case scorecardOf scorecardData of
        None \<Rightarrow> []
      | Some sc \<Rightarrow>
          concat (map (\<lambda>inning. List.map_filter scorecardBatsman (or_empty (batting inning))
                               @ List.map_filter scorecardBowler (or_empty (bowling inning))) sc))"

subsection \<open>The current batting state\<close>

record batsmanData =
  bd_name :: string
  bd_runs :: jsval
  bd_balls :: jsval
  bd_dismissal :: jsval

record bowlerData =
  bl_name :: string
  bl_overs :: jsval
  bl_runs :: jsval
  bl_wickets :: jsval

record battingData =
  battingTeam :: string
  bowlingTeam :: string
  currentBatsmen :: "batsmanData list"
  nextBatsman :: "string option"
  dismissedBatsmen :: "batsmanData list"
  currentBowlers :: "bowlerData list"
  totalRuns :: jsval
  totalWickets :: jsval
  totalOvers :: jsval

text \<open>\<open>entry.batsman && !entry.dismissal\<close>, for some entry of the inning.\<close>

definition dismissed :: "batting_entry \<Rightarrow> bool" where
  "dismissed e = truthy (get_prop (bat_props e) ''dismissal'')"

definition stillBatting :: "inning \<Rightarrow> bool" where
  "stillBatting inn = list_ex (\<lambda>e. batsman e \<noteq> None \<and> \<not> dismissed e) (or_empty (batting inn))"

fun find_index :: "('a \<Rightarrow> bool) \<Rightarrow> 'a list \<Rightarrow> nat option" where
  "find_index P [] = None"
| "find_index P (x # xs) =
     (if P x then Some 0 else (case find_index P xs of None \<Rightarrow> None | Some i \<Rightarrow> Some (Suc i)))"

text \<open>
  The position of \<open>currentInning\<close>: \<open>scorecard.find(...) || scorecard[scorecard.length - 1]\<close>,
  which \<open>scorecard.indexOf(currentInning)\<close> gives back.
\<close>

definition currentInningIndex :: "inning list \<Rightarrow> nat" where
  "currentInningIndex sc = (case find_index stillBatting sc of None \<Rightarrow> length sc - 1 | Some i \<Rightarrow> i)"

definition batsmanDataOf :: "batting_entry \<Rightarrow> batsmanData option" where
  "batsmanDataOf e =
     (case batsman e of
        None \<Rightarrow> None
      | Some b \<Rightarrow>
          (case name b of
             None \<Rightarrow> None
           | Some n \<Rightarrow>
               if n = [] then None
               else Some \<lparr>bd_name = n,
                          bd_runs = js_or (get_prop (bat_props e) ''r'') (JNum 0),
                          bd_balls = js_or (get_prop (bat_props e) ''b'') (JNum 0),
                          bd_dismissal = js_or (get_prop (bat_props e) ''dismissal'') JNull\<rparr>))"

text \<open>
  One round of \<open>batting.forEach\<close>, on \<open>currentBatsmen\<close>, \<open>dismissedBatsmen\<close> and
  \<open>allBattedNames\<close>.
\<close>

definition battingStep ::
  "batsmanData list \<times> batsmanData list \<times> string list \<Rightarrow> batting_entry \<Rightarrow>
   batsmanData list \<times> batsmanData list \<times> string list" where
  "battingStep acc e =
     (case acc of (cur, dis, names) \<Rightarrow>
        (case batsmanDataOf e of
           None \<Rightarrow> (cur, dis, names)
         | Some d \<Rightarrow>
             if dismissed e then (cur, dis @ [d], List.insert (toLowerCase (bd_name d)) names)
             else (cur @ [d], dis, List.insert (toLowerCase (bd_name d)) names)))"

definition battingLoop :: "batting_entry list \<Rightarrow> batsmanData list \<times> batsmanData list \<times> string list" where
  "battingLoop es = foldl battingStep ([], [], []) es"

text \<open>The first squad member whose name is not among the batted names.\<close>

fun firstNotBatted :: "player list \<Rightarrow> string list \<Rightarrow> string option" where
  "firstNotBatted [] names = None"
| "firstNotBatted (p # ps) names =
     (let playerName = (case name p of None \<Rightarrow> [] | Some n \<Rightarrow> n) in
      if playerName \<noteq> [] \<and> toLowerCase playerName \<notin> set names then Some playerName
      else firstNotBatted ps names)"

text \<open>\<open>bowler.bowler?.name || bowler.name || ''\<close>\<close>

definition bowlerName :: "bowling_entry \<Rightarrow> string" where
  "bowlerName e =
     (case str_or (case bowler e of None \<Rightarrow> None | Some b \<Rightarrow> name b) (bowl_name e) of
        None \<Rightarrow> []
      | Some n \<Rightarrow> n)"

definition bowlerDataOf :: "bowling_entry \<Rightarrow> bowlerData" where
  "bowlerDataOf e =
     \<lparr>bl_name = bowlerName e,
      bl_overs = js_or (get_prop (bowl_props e) ''o'') (JNum 0),
      bl_runs = js_or (get_prop (bowl_props e) ''r'') (JNum 0),
      bl_wickets = js_or (get_prop (bowl_props e) ''w'') (JNum 0)\<rparr>"

text \<open>\<open>xs?.[i]\<close> for strings: an element out of range is \<open>undefined\<close>, hence falsy.\<close>

definition nth_str :: "string list \<Rightarrow> nat \<Rightarrow> string" where
  "nth_str xs i = (if i < length xs then xs ! i else [])"

text \<open>\<open>matchData.data.score?.[i]?.[k]\<close>\<close>

definition scoreProp :: "match \<Rightarrow> nat \<Rightarrow> string \<Rightarrow> jsval" where
  "scoreProp m i k =
     (case score m of
        None \<Rightarrow> JUndefined
      | Some sc \<Rightarrow> if i < length sc then get_prop (si_props (sc ! i)) k else JUndefined)"

text \<open>\<open>teams.find(t => t !== teamName) || teams[1] || ''\<close>\<close>

definition otherTeam :: "string list \<Rightarrow> string \<Rightarrow> string" where
  "otherTeam ts teamName =
     (case find (\<lambda>t. t \<noteq> teamName) ts of
        Some t \<Rightarrow> if t \<noteq> [] then t else nth_str ts 1
      | None \<Rightarrow> nth_str ts 1)"

text \<open>
  \<open>organizeBattingData(scorecardData, squadData, matchData)\<close>; the third argument is
  \<open>matchData.data\<close>. \<open>None\<close> is the \<open>null\<close> it returns without a scorecard.
\<close>

definition organizeBattingData ::
  "scorecard_payload envelope option \<Rightarrow> squadData option \<Rightarrow> match \<Rightarrow> battingData option" where
  "organizeBattingData scorecardData squadData matchData =
     (case scorecardOf scorecardData of
        None \<Rightarrow> None
      | Some sc \<Rightarrow>
          if sc = [] then None
          else
            let i = currentInningIndex sc;
                currentInning = sc ! i;
                teamName = (if str_truthy (team currentInning) then or_empty (team currentInning)
                            else nth_str (or_empty (teams matchData)) i);
                (cur, dis, names) = battingLoop (or_empty (batting currentInning));
                teamSquad = (case squadData of
                               None \<Rightarrow> []
                             | Some sq \<Rightarrow> if i = 0 then team1Squad sq else team2Squad sq)
            in Some \<lparr>battingTeam = teamName,
                      bowlingTeam = otherTeam (or_empty (teams matchData)) teamName,
                      currentBatsmen = take 2 cur,
                      nextBatsman = firstNotBatted teamSquad names,
                      dismissedBatsmen = take 5 dis,
                      currentBowlers =
                        filter (\<lambda>b. bl_name b \<noteq> [])
                          (map bowlerDataOf (take 2 (or_empty (bowling currentInning)))),
                      totalRuns = js_or (get_prop (in_props currentInning) ''totalRuns'')
                                    (js_or (scoreProp matchData i ''r'') (JNum 0)),
                      totalWickets = js_or (get_prop (in_props currentInning) ''totalWickets'')
                                    (js_or (scoreProp matchData i ''w'') (JNum 0)),
                      totalOvers = js_or (get_prop (in_props currentInning) ''totalOvers'')
                                    (js_or (scoreProp matchData i ''o'') (JNum 0))\<rparr>)"

subsection \<open>Merging the player sources\<close>

text \<open>
  \<open>allPlayersMap\<close>: a JavaScript \<open>Map\<close> from the lower-cased name to the player
  object, in insertion order. \<open>set\<close> on a present key replaces the value in place.
\<close>

type_synonym players_map = "(string \<times> player) list"

text \<open>First, the squad players: \<open>allPlayersMap.set(player.name.toLowerCase(), {...player})\<close>.\<close>

definition addSquadPlayer :: "player \<Rightarrow> players_map \<Rightarrow> players_map" where
  "addSquadPlayer p m =
     (case name p of
        None \<Rightarrow> m
      | Some n \<Rightarrow> if n = [] then m else AList.update (toLowerCase n) p m)"

text \<open>
  The players from the scorecard:
  \<open>{...existing, ...player, image: existing.image || player.image}\<close> on a present key.
\<close>

definition mergeScorecardPlayer :: "player \<Rightarrow> players_map \<Rightarrow> players_map" where
  "mergeScorecardPlayer p m =
     (case name p of
        None \<Rightarrow> m
      | Some n \<Rightarrow>
          if n = [] then m
          else
            let key = toLowerCase n in
            (case map_of m key of
               None \<Rightarrow> AList.update key p m
             | Some existing \<Rightarrow>
                 AList.update key
                   \<lparr>name = name p,
                    props = AList.update ''image''
                              (js_or (get_prop (props existing) ''image'') (get_prop (props p) ''image''))
                              (spread (props existing) (props p))\<rparr> m))"

text \<open>The players from the live score: \<open>{...existing, ...player}\<close> on a present key.\<close>

definition mergeScorePlayer :: "player \<Rightarrow> players_map \<Rightarrow> players_map" where
  "mergeScorePlayer p m =
     (case name p of
        None \<Rightarrow> m
      | Some n \<Rightarrow>
          if n = [] then m
          else
            let key = toLowerCase n in
            (case map_of m key of
               None \<Rightarrow> AList.update key p m
             | Some existing \<Rightarrow>
                 AList.update key \<lparr>name = name p, props = spread (props existing) (props p)\<rparr> m))"

text \<open>
  The players of the match info itself:
  \<open>typeof player === 'string' ? player : (player.name || player.playerName || player.player)\<close>.
\<close>

fun rawName :: "raw_player \<Rightarrow> string option" where
  "rawName (RawString s) = Some s"
| "rawName (RawObject ob) = str_or (str_or (ro_name ob) (ro_playerName ob)) (ro_player ob)"

definition str_prop :: "string \<Rightarrow> string option \<Rightarrow> obj" where
  "str_prop k v = (case v of None \<Rightarrow> [] | Some s \<Rightarrow> [(k, JStr s)])"

text \<open>\<open>typeof player === 'string' ? { name: playerName } : player\<close>\<close>

fun rawEntry :: "raw_player \<Rightarrow> player" where
  "rawEntry (RawString s) = \<lparr>name = Some s, props = []\<rparr>"
| "rawEntry (RawObject ob) =
     \<lparr>name = ro_name ob,
      props = str_prop ''playerName'' (ro_playerName ob) @ str_prop ''player'' (ro_player ob) @ ro_props ob\<rparr>"

definition addMatchDataPlayer :: "raw_player \<Rightarrow> players_map \<Rightarrow> players_map" where
  "addMatchDataPlayer rp m =
     (case rawName rp of
        None \<Rightarrow> m
      | Some playerName \<Rightarrow>
          if playerName \<noteq> [] \<and> playerName \<noteq> ''Unknown Player'' then
            (let key = toLowerCase playerName in
             if map_of m key = None then AList.update key (rawEntry rp) m else m)
          else m)"

text \<open>The four passes over \<open>allPlayersMap\<close>, in the order of the source.\<close>

definition allPlayersMap ::
  "player list \<Rightarrow> player list \<Rightarrow> player list \<Rightarrow> raw_player list \<Rightarrow> players_map" where
  "allPlayersMap playersFromSquad playersFromScorecard playersFromScore playersFromMatchData =
     fold addMatchDataPlayer playersFromMatchData
       (fold mergeScorePlayer playersFromScore
          (fold mergeScorecardPlayer playersFromScorecard
             (fold addSquadPlayer playersFromSquad [])))"

text \<open>
  \<open>matchData.data.players || matchData.data.playerInfo || []\<close>: the first of the two
  that is truthy, whether an array or not; an empty array is truthy.
\<close>

definition playersFromMatchData :: "match \<Rightarrow> raw_player maybe_array" where
  "playersFromMatchData m =
     (case m_players m of
        Falsy \<Rightarrow> (case m_playerInfo m of Falsy \<Rightarrow> IsArray [] | v \<Rightarrow> v)
      | v \<Rightarrow> v)"

text \<open>
  The merged map for one match, from the three answers. The last pass runs only
  \<open>if (Array.isArray(playersFromMatchData))\<close>.
\<close>

definition mergedPlayers ::
  "match \<Rightarrow> squadData option \<Rightarrow> scorecard_payload envelope option \<Rightarrow> players_map" where
  "mergedPlayers matchData squadData scorecardData =
     allPlayersMap
       (case squadData of None \<Rightarrow> [] | Some sq \<Rightarrow> players sq)
       (extractPlayersFromScorecard scorecardData)
       (extractPlayersFromScore (or_empty (score matchData)))
       (case playersFromMatchData matchData of IsArray ps \<Rightarrow> ps | _ \<Rightarrow> [])"

subsection \<open>The enhanced record\<close>

text \<open>
  \<open>players\<close> of the enhanced record: the merged players, or, if there are none,
  \<open>matchData.data.players || matchData.data.playerInfo || []\<close> as it is.
\<close>

datatype players_out = Merged "player list" | Unmerged "raw_player maybe_array"

record enhancedData =
  e_matchData :: "match envelope"
  e_team1Squad :: "player list"
  e_team2Squad :: "player list"
  e_team1PlayingXI :: "player list"
  e_team2PlayingXI :: "player list"
  e_players :: players_out
  e_battingData :: "battingData option"
  e_stats :: "jsval option"
  e_commentary :: "jsval option"
  e_tossWinner :: jsval
  e_tossChoice :: jsval
  e_matchWinner :: jsval

text \<open>\<open>a || b || default\<close>, with \<open>None\<close> for the default.\<close>

definition or_default :: "jsval \<Rightarrow> jsval \<Rightarrow> jsval option" where
  "or_default a b = (if truthy a then Some a else if truthy b then Some b else None)"

text \<open>
  \<open>enhancedData\<close> of \<open>getMatchDetails\<close>, for a match-info body whose \<open>data\<close> is \<open>d\<close>.
  For \<open>stats\<close> and \<open>commentary\<close>, \<open>None\<close> is the default \<open>{}\<close> or \<open>[]\<close>.
\<close>

definition enhance ::
  "match envelope \<Rightarrow> match \<Rightarrow> squadData option \<Rightarrow> scorecard_payload envelope option \<Rightarrow> enhancedData" where
  "enhance matchData d squadData scorecardData =
     (let allPlayers = map snd (mergedPlayers d squadData scorecardData) in
      \<lparr>e_matchData = matchData,
       e_team1Squad = (case squadData of None \<Rightarrow> [] | Some sq \<Rightarrow> team1Squad sq),
       e_team2Squad = (case squadData of None \<Rightarrow> [] | Some sq \<Rightarrow> team2Squad sq),
       e_team1PlayingXI = (case squadData of None \<Rightarrow> [] | Some sq \<Rightarrow> team1PlayingXI sq),
       e_team2PlayingXI = (case squadData of None \<Rightarrow> [] | Some sq \<Rightarrow> team2PlayingXI sq),
       e_players = (if length allPlayers > 0 then Merged allPlayers
                    else Unmerged (playersFromMatchData d)),
       e_battingData = organizeBattingData scorecardData squadData d,
       e_stats = or_default (get_prop (m_props d) ''stats'') (get_prop (m_props d) ''statistics''),
       e_commentary = or_default (get_prop (m_props d) ''commentary'') (get_prop (m_props d) ''recentEvents''),
       e_tossWinner = js_or (get_prop (m_props d) ''tossWinner'') JNull,
       e_tossChoice = js_or (get_prop (m_props d) ''tossChoice'') JNull,
       e_matchWinner = js_or (get_prop (m_props d) ''matchWinner'') JNull\<rparr>)"

text \<open>
  The body of a \<open>/match_info\<close> answer: the envelope, or a value that is not an object
  (\<open>null\<close>, \<open>undefined\<close>, or a string such as the \<open>''\<close> of an empty answer).
\<close>

datatype info_body = Plain jsval | Enveloped "match envelope"

text \<open>What the match-detail cache holds for an id: the enhanced record or the bare body.\<close>

datatype detail = Enhanced enhancedData | Basic info_body

section \<open>The cache and the module state\<close>

text \<open>
  The \<open>cache\<close> object. \<open>current\<close> and \<open>upcoming\<close> are \<open>null\<close> or \<open>{data: [...]}\<close>;
  \<open>matchDetails\<close> maps a match id to \<open>{data, timestamp}\<close>.
\<close>

record cache_obj =
  current :: "match list option"
  upcoming :: "match list option"
  matchDetails :: "string \<rightharpoonup> detail \<times> timestamp"
  lastFetch_current :: "timestamp option"
  lastFetch_upcoming :: "timestamp option"
  isUpdatingCurrent :: bool
  isUpdatingUpcoming :: bool

text \<open>
  The module variables, and whether the Node process that holds them has ended.
\<close>

record state =
  keys :: keys_state
  lastApiCallTime :: timestamp
  cache :: cache_obj
  exited :: bool

definition clearCache :: "state \<Rightarrow> state" where
  "clearCache s =
     s\<lparr>cache := (cache s)\<lparr>current := None, upcoming := None, matchDetails := Map.empty,
                            lastFetch_current := None, lastFetch_upcoming := None\<rparr>\<rparr>"

section \<open>Asynchronous functions as resumable tasks\<close>

text \<open>
  The service runs on one thread: a function runs until its next \<open>await\<close>, and other
  tasks run before it is resumed. Each asynchronous function is a \<open>start\<close> function
  for its first synchronous part and a \<open>resume\<close> function for the part that follows
  the event it waits for. The clock is read once in each part. A timer does not fire
  before its deadline.
\<close>

text \<open>
  What a request gives: the body of the answer, or the error axios raises. For the
  \<open>/matches\<close>, squad and scorecard requests the body is \<open>None\<close> when it is
  \<open>null\<close>, \<open>undefined\<close> or not an object; the code tests
  \<open>response.data && response.data.status\<close> and treats them alike.
\<close>

datatype 'b http_result = HttpOk 'b | HttpErr js_error

datatype 'r settled = Resolved 'r | Rejected js_error

datatype ('pc, 'r) progress = Suspended 'pc | Finished "'r settled"

subsection \<open>Classifying a caught error\<close>

text \<open>\<open>error.message || error.response?.data?.reason || ''\<close>\<close>

definition errorMessage :: "js_error \<Rightarrow> string" where
  "errorMessage e = (if message e \<noteq> [] then message e else or_empty (response_reason e))"

definition mentionsRateLimit :: "string \<Rightarrow> bool" where
  "mentionsRateLimit s =
     (let l = toLowerCase s in
      str_includes l ''blocked'' \<or> str_includes l ''limit'' \<or> str_includes l ''exceeded'')"

definition isRateLimited :: "js_error \<Rightarrow> bool" where
  "isRateLimited e = (mentionsRateLimit (errorMessage e) \<or> response_status e = Some 429)"

subsection \<open>The two cache updaters\<close>

text \<open>
  \<open>updateCurrentMatchesCache\<close> and \<open>updateUpcomingMatchesCache\<close> are the same text
  but for the busy flag, the cache slot and the filter; the region selects them.
\<close>

datatype region = Current | Upcoming

fun isUpdating :: "region \<Rightarrow> cache_obj \<Rightarrow> bool" where
  "isUpdating Current c = isUpdatingCurrent c"
| "isUpdating Upcoming c = isUpdatingUpcoming c"

fun set_isUpdating :: "region \<Rightarrow> bool \<Rightarrow> state \<Rightarrow> state" where
  "set_isUpdating Current b s = s\<lparr>cache := (cache s)\<lparr>isUpdatingCurrent := b\<rparr>\<rparr>"
| "set_isUpdating Upcoming b s = s\<lparr>cache := (cache s)\<lparr>isUpdatingUpcoming := b\<rparr>\<rparr>"

fun cached :: "region \<Rightarrow> cache_obj \<Rightarrow> match list option" where
  "cached Current c = current c"
| "cached Upcoming c = upcoming c"

fun classify :: "region \<Rightarrow> match list \<Rightarrow> match list" where
  "classify Current allMatches = sortedLive allMatches"
| "classify Upcoming allMatches = upcomingMatches allMatches"

fun store :: "region \<Rightarrow> match list \<Rightarrow> timestamp \<Rightarrow> state \<Rightarrow> state" where
  "store Current ms now s =
     s\<lparr>cache := (cache s)\<lparr>current := Some ms, lastFetch_current := Some now\<rparr>\<rparr>"
| "store Upcoming ms now s =
     s\<lparr>cache := (cache s)\<lparr>upcoming := Some ms, lastFetch_upcoming := Some now\<rparr>\<rparr>"

text \<open>The value an updater returns: \<open>None\<close> is \<open>undefined\<close>, \<open>Some l\<close> is \<open>{data: l}\<close>.\<close>

type_synonym refresh_result = "match list option"

text \<open>\<open>return cache.current || { data: [] }\<close>, then the \<open>finally\<close> block.\<close>

definition refresh_return_cached ::
  "region \<Rightarrow> state \<Rightarrow> (('pc, refresh_result) progress) \<times> state" where
  "refresh_return_cached r s =
     (Finished (Resolved (Some (or_empty (cached r (cache s))))), set_isUpdating r False s)"

text \<open>
  The outer \<open>catch\<close> block and the \<open>finally\<close> block. \<open>apiKey\<close> is declared with
  \<open>let\<close> inside the \<open>try\<close> block, so \<open>if (apiKey)\<close> in the rate-limited branch
  raises a ReferenceError, which leaves through \<open>finally\<close>.
\<close>

definition refresh_catch ::
  "region \<Rightarrow> js_error \<Rightarrow> state \<Rightarrow> (('pc, refresh_result) progress) \<times> state" where
  "refresh_catch r error s =
     (if isRateLimited error
      then (Finished (Rejected ReferenceError_apiKey), set_isUpdating r False s)
      else refresh_return_cached r s)"

text \<open>The part of the \<open>try\<close> block after a response has arrived.\<close>

definition refresh_process ::
  "region \<Rightarrow> key \<Rightarrow> timestamp \<Rightarrow> match list envelope option \<Rightarrow> state \<Rightarrow>
   (('pc, refresh_result) progress) \<times> state" where
  "refresh_process r apiKey now body s =
     (case body of
        None \<Rightarrow> refresh_return_cached r s
      | Some b \<Rightarrow>
          (case (if status b = ''success'' then data b else None) of
             Some allMatches \<Rightarrow>
               (Finished (Resolved (Some (classify r allMatches))),
                set_isUpdating r False (store r (classify r allMatches) now s))
           | None \<Rightarrow>
               if status b = ''failure'' \<and> mentionsRateLimit (or_empty (reason b))
               then refresh_return_cached r (s\<lparr>keys := markKeyAsRateLimited apiKey now (keys s)\<rparr>)
               else refresh_return_cached r s))"

datatype refresh_pc =
    RThrottle timestamp
  | RAfterThrottle
  | RHttp key nat nat
  | RDelay timestamp key nat nat js_error

datatype event =
    Timer timestamp
  | Tick timestamp
  | MatchesResponse timestamp "match list envelope option http_result"
  | InfoResponse timestamp "info_body http_result"
  | SquadResponse timestamp "squad_team list envelope option http_result"
  | ScorecardResponse timestamp "scorecard_payload envelope option http_result"

text \<open>
  The head of the \<open>for\<close> loop over the key attempts, entered with \<open>attempt\<close>: the
  request is sent, or the loop is over with no response and \<open>lastError\<close> (or, if there
  is none, a new error) is thrown.
\<close>

definition refresh_loop ::
  "region \<Rightarrow> key \<Rightarrow> nat \<Rightarrow> nat \<Rightarrow> js_error option \<Rightarrow> state \<Rightarrow>
   ((refresh_pc, refresh_result) progress) \<times> state" where
  "refresh_loop r apiKey attempt maxKeyAttempts lastError s =
     (if attempt < maxKeyAttempts then (Suspended (RHttp apiKey attempt maxKeyAttempts), s)
      else refresh_catch r
             (case lastError of
                Some e \<Rightarrow> e
              | None \<Rightarrow> Error ''Failed to fetch matches after trying all keys'') s)"

text \<open>
  The first part: the busy flag is checked and set, and \<open>throttleApiCall\<close> is entered.
  With the flag set the call returns \<open>undefined\<close> at once.
\<close>

definition refresh_start ::
  "region \<Rightarrow> timestamp \<Rightarrow> state \<Rightarrow> ((refresh_pc, refresh_result) progress) \<times> state" where
  "refresh_start r now s =
     (if isUpdating r (cache s) then (Finished (Resolved None), s)
      else
        let s1 = set_isUpdating r True s in
        (case throttleApiCall_enter now (lastApiCallTime s1) of
           (Some waitTime, l) \<Rightarrow> (Suspended (RThrottle (now + waitTime)), s1)
         | (None, l) \<Rightarrow> (Suspended RAfterThrottle, s1\<lparr>lastApiCallTime := l\<rparr>)))"

text \<open>The parts that follow an event. An event the task does not wait for changes nothing.\<close>

definition refresh_resume ::
  "region \<Rightarrow> event \<Rightarrow> refresh_pc \<Rightarrow> state \<Rightarrow> ((refresh_pc, refresh_result) progress) \<times> state" where
  "refresh_resume r ev pc s =
     (case pc of
        RThrottle deadline \<Rightarrow>
          (case ev of
             Timer now \<Rightarrow>
               if now < deadline then (Suspended pc, s)
               else (Suspended RAfterThrottle,
                     s\<lparr>lastApiCallTime := throttleApiCall_resume now (lastApiCallTime s)\<rparr>)
           | _ \<Rightarrow> (Suspended pc, s))
      | RAfterThrottle \<Rightarrow>
          (case ev of
             Tick now \<Rightarrow>
               (case getApiKey now (keys s) of
                  (Inl e, ks) \<Rightarrow> refresh_catch r e (s\<lparr>keys := ks\<rparr>)
                | (Inr k, ks) \<Rightarrow>
                    if key_truthy k
                    then refresh_loop r (or_empty k) 0 (length (apiKeys ks)) None (s\<lparr>keys := ks\<rparr>)
                    else refresh_catch r (Error ''CRICKET_API_KEY is not configured'') (s\<lparr>keys := ks\<rparr>))
           | _ \<Rightarrow> (Suspended pc, s))
      | RHttp apiKey attempt maxKeyAttempts \<Rightarrow>
          (case ev of
             MatchesResponse now res \<Rightarrow>
               (case res of
                  HttpOk body \<Rightarrow> refresh_process r apiKey now body s
                | HttpErr error \<Rightarrow>
                    if isRateLimited error then
                      (case getApiKey now (markKeyAsRateLimited apiKey now (keys s)) of
                         (Inl e, ks) \<Rightarrow> refresh_catch r e (s\<lparr>keys := ks\<rparr>)
                       | (Inr k, ks) \<Rightarrow>
                           if key_truthy k
                           then (Suspended (RDelay (now + 1000) (or_empty k) attempt maxKeyAttempts error),
                                 s\<lparr>keys := ks\<rparr>)
                           else refresh_catch r (Error ''All API keys are rate limited'') (s\<lparr>keys := ks\<rparr>))
                    else refresh_catch r error s)
           | _ \<Rightarrow> (Suspended pc, s))
      | RDelay deadline apiKey attempt maxKeyAttempts lastError \<Rightarrow>
          (case ev of
             Timer now \<Rightarrow>
               if now < deadline then (Suspended pc, s)
               else refresh_loop r apiKey (attempt + 1) maxKeyAttempts (Some lastError) s
           | _ \<Rightarrow> (Suspended pc, s)))"

definition updateCurrentMatchesCache_start ::
  "timestamp \<Rightarrow> state \<Rightarrow> ((refresh_pc, refresh_result) progress) \<times> state" where
  "updateCurrentMatchesCache_start = refresh_start Current"

definition updateCurrentMatchesCache_resume ::
  "event \<Rightarrow> refresh_pc \<Rightarrow> state \<Rightarrow> ((refresh_pc, refresh_result) progress) \<times> state" where
  "updateCurrentMatchesCache_resume = refresh_resume Current"

definition updateUpcomingMatchesCache_start ::
  "timestamp \<Rightarrow> state \<Rightarrow> ((refresh_pc, refresh_result) progress) \<times> state" where
  "updateUpcomingMatchesCache_start = refresh_start Upcoming"

definition updateUpcomingMatchesCache_resume ::
  "event \<Rightarrow> refresh_pc \<Rightarrow> state \<Rightarrow> ((refresh_pc, refresh_result) progress) \<times> state" where
  "updateUpcomingMatchesCache_resume = refresh_resume Upcoming"

subsection \<open>The query functions for the two lists\<close>

text \<open>
  \<open>getCurrentMatches\<close> and \<open>getUpcomingMatches\<close> return the cached object when its
  list is not empty. Otherwise they call the updater and wait for it; whatever it
  returns or raises, they answer with its list or with an empty one.
\<close>

definition getMatches_start ::
  "region \<Rightarrow> timestamp \<Rightarrow> state \<Rightarrow> ((refresh_pc, match list) progress) \<times> state" where
  "getMatches_start r now s =
     (case cached r (cache s) of
        Some l \<Rightarrow>
          if length l > 0 then (Finished (Resolved l), s)
          else (case refresh_start r now s of
                  (Suspended pc, s') \<Rightarrow> (Suspended pc, s')
                | (Finished res, s') \<Rightarrow> (Finished (Resolved []), s'))
      | None \<Rightarrow>
          (case refresh_start r now s of
             (Suspended pc, s') \<Rightarrow> (Suspended pc, s')
           | (Finished res, s') \<Rightarrow> (Finished (Resolved []), s')))"

text \<open>\<open>result || { data: [] }\<close>, and \<open>{ data: [] }\<close> in the \<open>catch\<close> block.\<close>

fun getMatches_finish :: "refresh_result settled \<Rightarrow> match list" where
  "getMatches_finish (Resolved (Some l)) = l"
| "getMatches_finish (Resolved None) = []"
| "getMatches_finish (Rejected e) = []"

definition getMatches_resume ::
  "region \<Rightarrow> event \<Rightarrow> refresh_pc \<Rightarrow> state \<Rightarrow> ((refresh_pc, match list) progress) \<times> state" where
  "getMatches_resume r ev pc s =
     (case refresh_resume r ev pc s of
        (Suspended pc', s') \<Rightarrow> (Suspended pc', s')
      | (Finished res, s') \<Rightarrow> (Finished (Resolved (getMatches_finish res)), s'))"

definition getCurrentMatches_start ::
  "timestamp \<Rightarrow> state \<Rightarrow> ((refresh_pc, match list) progress) \<times> state" where
  "getCurrentMatches_start = getMatches_start Current"

definition getUpcomingMatches_start ::
  "timestamp \<Rightarrow> state \<Rightarrow> ((refresh_pc, match list) progress) \<times> state" where
  "getUpcomingMatches_start = getMatches_start Upcoming"

subsection \<open>\<open>getMatchDetails\<close>\<close>

text \<open>
  The local variables of one call that live across its \<open>await\<close>s, once the match
  info has arrived: the id, the key taken at the start (which every \<open>makeApiCall\<close>
  begins with), the match-info body and its \<open>data\<close>, and what the squad and scorecard
  requests have given so far.
\<close>

record md_ctx =
  matchId :: string
  apiKey :: key
  matchData :: "match envelope"
  matchInfo :: match
  md_squadData :: "squadData option"
  md_scorecardData :: "scorecard_payload envelope option"

datatype md_stage = Squad | Scorecard | AltScorecard

text \<open>The request a \<open>makeApiCall\<close> is working on: the match info, or a later stage.\<close>

datatype md_call = InfoCall string key | StageCall md_stage md_ctx

datatype md_pc =
    MStartThrottle timestamp string
  | MStartTick string
  | MThrottle timestamp md_stage md_ctx
  | MTick md_stage md_ctx
  | MHttp md_call key nat nat
  | MDelay timestamp md_call key nat nat js_error

type_synonym md_progress = "(md_pc, detail) progress"

text \<open>
  The outer \<open>catch\<close> block: the cached value for the id if there is one, else the error.
\<close>

definition md_catch :: "string \<Rightarrow> js_error \<Rightarrow> state \<Rightarrow> md_progress \<times> state" where
  "md_catch mid error s =
     (case matchDetails (cache s) mid of
        Some (d, ts) \<Rightarrow> (Finished (Resolved d), s)
      | None \<Rightarrow> (Finished (Rejected error), s))"

text \<open>\<open>cache.matchDetails.set(matchId, { data, timestamp: Date.now() })\<close> and \<open>return data\<close>.\<close>

definition md_store :: "string \<Rightarrow> detail \<Rightarrow> timestamp \<Rightarrow> state \<Rightarrow> md_progress \<times> state" where
  "md_store mid d now s =
     (Finished (Resolved d),
      s\<lparr>cache := (cache s)\<lparr>matchDetails := (matchDetails (cache s))(mid \<mapsto> (d, now))\<rparr>\<rparr>)"

text \<open>
  The end of the \<open>try\<close> block, once no further request is due. Before the record is
  built the debug log evaluates
  \<open>matchData.data.score ? JSON.stringify(matchData.data.score[0]).substring(0, 200) : 'no score'\<close>.
  An empty array is truthy and has no first element, \<open>JSON.stringify(undefined)\<close> is
  \<open>undefined\<close>, and \<open>substring\<close> raises a TypeError, which the outer \<open>catch\<close>
  block takes: nothing is stored.
\<close>

definition md_finalize :: "md_ctx \<Rightarrow> timestamp \<Rightarrow> state \<Rightarrow> md_progress \<times> state" where
  "md_finalize ctx now s =
     (if score (matchInfo ctx) = Some [] then md_catch (matchId ctx) TypeError_substring s
      else md_store (matchId ctx)
             (Enhanced (enhance (matchData ctx) (matchInfo ctx) (md_squadData ctx) (md_scorecardData ctx)))
             now s)"

text \<open>\<open>await throttleApiCall()\<close> before the request of a stage.\<close>

definition md_throttle :: "md_stage \<Rightarrow> md_ctx \<Rightarrow> timestamp \<Rightarrow> state \<Rightarrow> md_progress \<times> state" where
  "md_throttle stage ctx now s =
     (case throttleApiCall_enter now (lastApiCallTime s) of
        (Some waitTime, l) \<Rightarrow> (Suspended (MThrottle (now + waitTime) stage ctx), s)
      | (None, l) \<Rightarrow> (Suspended (MTick stage ctx), s\<lparr>lastApiCallTime := l\<rparr>))"

text \<open>
  What follows a stage, whether its request gave data or not or raised inside its own
  \<open>try\<close> block: the squad stage is followed by the scorecard, the scorecard by the
  alternative endpoint when \<open>scorecardData\<close> is still \<open>null\<close>, and then the record is built.
\<close>

fun md_next :: "md_stage \<Rightarrow> md_ctx \<Rightarrow> timestamp \<Rightarrow> state \<Rightarrow> md_progress \<times> state" where
  "md_next Squad ctx now s = md_throttle Scorecard ctx now s"
| "md_next Scorecard ctx now s =
     (if md_scorecardData ctx = None then md_throttle AltScorecard ctx now s
      else md_finalize ctx now s)"
| "md_next AltScorecard ctx now s = md_finalize ctx now s"

text \<open>
  An error thrown by \<open>makeApiCall\<close>: for the match info it reaches the outer
  \<open>catch\<close>; for the other requests it is logged and the function goes on.
\<close>

fun md_fail :: "md_call \<Rightarrow> js_error \<Rightarrow> timestamp \<Rightarrow> state \<Rightarrow> md_progress \<times> state" where
  "md_fail (InfoCall mid k) error now s = md_catch mid error s"
| "md_fail (StageCall stage ctx) error now s = md_next stage ctx now s"

text \<open>The head of the \<open>for\<close> loop of \<open>makeApiCall\<close>.\<close>

definition makeApiCall_loop ::
  "md_call \<Rightarrow> key \<Rightarrow> nat \<Rightarrow> nat \<Rightarrow> js_error option \<Rightarrow> timestamp \<Rightarrow> state \<Rightarrow> md_progress \<times> state" where
  "makeApiCall_loop call currentKey attempt maxKeyAttempts lastError now s =
     (if attempt < maxKeyAttempts then (Suspended (MHttp call currentKey attempt maxKeyAttempts), s)
      else md_fail call
             (case lastError of
                Some e \<Rightarrow> e
              | None \<Rightarrow> Error ''Failed to fetch after trying all keys'') now s)"

text \<open>The \<open>catch\<close> block inside the loop of \<open>makeApiCall\<close>.\<close>

definition makeApiCall_error ::
  "md_call \<Rightarrow> key \<Rightarrow> nat \<Rightarrow> nat \<Rightarrow> js_error \<Rightarrow> timestamp \<Rightarrow> state \<Rightarrow> md_progress \<times> state" where
  "makeApiCall_error call currentKey attempt maxKeyAttempts error now s =
     (if isRateLimited error then
        (case getApiKey now (markKeyAsRateLimited currentKey now (keys s)) of
           (Inl e, ks) \<Rightarrow> md_fail call e now (s\<lparr>keys := ks\<rparr>)
         | (Inr k, ks) \<Rightarrow>
             if key_truthy k
             then (Suspended (MDelay (now + 1000) call (or_empty k) attempt maxKeyAttempts error),
                   s\<lparr>keys := ks\<rparr>)
             else md_fail call (Error ''All API keys are rate limited'') now (s\<lparr>keys := ks\<rparr>))
      else md_fail call error now s)"

text \<open>
  The match info has arrived. A body that is \<open>null\<close> or \<open>undefined\<close> makes
  \<open>matchData.status\<close> raise a TypeError. Any other body that is not a success with
  data, be it an envelope with another status or not an object at all, is cached and
  returned as it is.
\<close>

definition md_info ::
  "string \<Rightarrow> key \<Rightarrow> info_body \<Rightarrow> timestamp \<Rightarrow> state \<Rightarrow> md_progress \<times> state" where
  "md_info mid k body now s =
     (case body of
        Plain v \<Rightarrow>
          if v = JUndefined \<or> v = JNull then md_catch mid TypeError_status s
          else md_store mid (Basic body) now s
      | Enveloped b \<Rightarrow>
          (case (if status b = ''success'' then data b else None) of
             Some d \<Rightarrow>
               (let ctx = \<lparr>matchId = mid, apiKey = k, matchData = b, matchInfo = d,
                           md_squadData = None, md_scorecardData = None\<rparr> in
                if truthy (hasSquad d) then md_throttle Squad ctx now s
                else md_throttle Scorecard ctx now s)
           | None \<Rightarrow> md_store mid (Basic body) now s))"

text \<open>The squad answer: \<open>squadResponse.data && Array.isArray(squadResponse.data.data)\<close>.\<close>

definition md_squad ::
  "md_ctx \<Rightarrow> squad_team list envelope option \<Rightarrow> timestamp \<Rightarrow> state \<Rightarrow> md_progress \<times> state" where
  "md_squad ctx body now s =
     (case (case body of None \<Rightarrow> None | Some b \<Rightarrow> data b) of
        None \<Rightarrow> md_next Squad ctx now s
      | Some ts \<Rightarrow> md_next Squad (ctx\<lparr>md_squadData := Some (extractSquadData (Some ts))\<rparr>) now s)"

text \<open>A scorecard answer: \<open>scorecardResponse.data && scorecardResponse.data.data\<close>.\<close>

definition md_scorecard ::
  "md_stage \<Rightarrow> md_ctx \<Rightarrow> scorecard_payload envelope option \<Rightarrow> timestamp \<Rightarrow> state \<Rightarrow>
   md_progress \<times> state" where
  "md_scorecard stage ctx body now s =
     (case body of
        None \<Rightarrow> md_next stage ctx now s
      | Some b \<Rightarrow>
          (case data b of
             None \<Rightarrow> md_next stage ctx now s
           | Some d \<Rightarrow> md_next stage (ctx\<lparr>md_scorecardData := Some b\<rparr>) now s))"

text \<open>The part after the answer to a request.\<close>

definition md_response ::
  "md_call \<Rightarrow> key \<Rightarrow> nat \<Rightarrow> nat \<Rightarrow> event \<Rightarrow> md_pc \<Rightarrow> state \<Rightarrow> md_progress \<times> state" where
  "md_response call currentKey attempt maxKeyAttempts ev pc s =
     (case call of
        InfoCall mid k \<Rightarrow>
          (case ev of
             InfoResponse now res \<Rightarrow>
               (case res of
                  HttpOk body \<Rightarrow> md_info mid k body now s
                | HttpErr error \<Rightarrow> makeApiCall_error call currentKey attempt maxKeyAttempts error now s)
           | _ \<Rightarrow> (Suspended pc, s))
      | StageCall stage ctx \<Rightarrow>
          (case stage of
             Squad \<Rightarrow>
               (case ev of
                  SquadResponse now res \<Rightarrow>
                    (case res of
                       HttpOk body \<Rightarrow> md_squad ctx body now s
                     | HttpErr error \<Rightarrow>
                         makeApiCall_error call currentKey attempt maxKeyAttempts error now s)
                | _ \<Rightarrow> (Suspended pc, s))
           | _ \<Rightarrow>
               (case ev of
                  ScorecardResponse now res \<Rightarrow>
                    (case res of
                       HttpOk body \<Rightarrow> md_scorecard stage ctx body now s
                     | HttpErr error \<Rightarrow>
                         makeApiCall_error call currentKey attempt maxKeyAttempts error now s)
                | _ \<Rightarrow> (Suspended pc, s))))"

text \<open>The first part: the cache is looked up, fresh or stale, before anything else.\<close>

definition getMatchDetails_start :: "string \<Rightarrow> timestamp \<Rightarrow> state \<Rightarrow> md_progress \<times> state" where
  "getMatchDetails_start mid now s =
     (case matchDetails (cache s) mid of
        Some (d, ts) \<Rightarrow> (Finished (Resolved d), s)
      | None \<Rightarrow>
          (case throttleApiCall_enter now (lastApiCallTime s) of
             (Some waitTime, l) \<Rightarrow> (Suspended (MStartThrottle (now + waitTime) mid), s)
           | (None, l) \<Rightarrow> (Suspended (MStartTick mid), s\<lparr>lastApiCallTime := l\<rparr>)))"

definition getMatchDetails_resume :: "event \<Rightarrow> md_pc \<Rightarrow> state \<Rightarrow> md_progress \<times> state" where
  "getMatchDetails_resume ev pc s =
     (case pc of
        MStartThrottle deadline mid \<Rightarrow>
          (case ev of
             Timer now \<Rightarrow>
               if now < deadline then (Suspended pc, s)
               else (Suspended (MStartTick mid),
                     s\<lparr>lastApiCallTime := throttleApiCall_resume now (lastApiCallTime s)\<rparr>)
           | _ \<Rightarrow> (Suspended pc, s))
      | MStartTick mid \<Rightarrow>
          (case ev of
             Tick now \<Rightarrow>
               (case getApiKey now (keys s) of
                  (Inl e, ks) \<Rightarrow> md_catch mid e (s\<lparr>keys := ks\<rparr>)
                | (Inr k, ks) \<Rightarrow>
                    if key_truthy k
                    then makeApiCall_loop (InfoCall mid (or_empty k)) (or_empty k) 0
                           (length (apiKeys ks)) None now (s\<lparr>keys := ks\<rparr>)
                    else md_catch mid (Error ''CRICKET_API_KEY is not configured'') (s\<lparr>keys := ks\<rparr>))
           | _ \<Rightarrow> (Suspended pc, s))
      | MThrottle deadline stage ctx \<Rightarrow>
          (case ev of
             Timer now \<Rightarrow>
               if now < deadline then (Suspended pc, s)
               else (Suspended (MTick stage ctx),
                     s\<lparr>lastApiCallTime := throttleApiCall_resume now (lastApiCallTime s)\<rparr>)
           | _ \<Rightarrow> (Suspended pc, s))
      | MTick stage ctx \<Rightarrow>
          (case ev of
             Tick now \<Rightarrow>
               makeApiCall_loop (StageCall stage ctx) (apiKey ctx) 0
                 (length (apiKeys (keys s))) None now s
           | _ \<Rightarrow> (Suspended pc, s))
      | MHttp call currentKey attempt maxKeyAttempts \<Rightarrow>
          md_response call currentKey attempt maxKeyAttempts ev pc s
      | MDelay deadline call currentKey attempt maxKeyAttempts lastError \<Rightarrow>
          (case ev of
             Timer now \<Rightarrow>
               if now < deadline then (Suspended pc, s)
               else makeApiCall_loop call currentKey (attempt + 1) maxKeyAttempts (Some lastError) now s
           | _ \<Rightarrow> (Suspended pc, s)))"

section \<open>The service as a whole\<close>

text \<open>
  The tasks in flight: a cache updater called by the background timer, one called by
  \<open>refreshCache\<close>, a list query waiting for the updater it called, and a call of
  \<open>getMatchDetails\<close>.
\<close>

datatype task =
    Refresh region refresh_pc
  | Manual region refresh_pc
  | Query region refresh_pc
  | Details md_pc

text \<open>
  What the outside can do: the timer or \<open>refreshCache\<close> calls an updater, an exported
  function is called, or an event is delivered to a task. The timer and
  \<open>refreshCache\<close> call both updaters, one after the other at the same time.
\<close>

datatype action =
    TriggerRefresh region timestamp
  | CallRefreshCache region timestamp
  | CallGetMatches region timestamp
  | CallGetMatchDetails string timestamp
  | CallClearCache
  | Deliver nat event

type_synonym system = "state \<times> task list"

text \<open>The cache when the module is loaded.\<close>

definition empty_cache :: cache_obj where
  "empty_cache =
     \<lparr>current = None, upcoming = None, matchDetails = Map.empty,
      lastFetch_current = None, lastFetch_upcoming = None,
      isUpdatingCurrent = False, isUpdatingUpcoming = False\<rparr>"

text \<open>A started function joins the tasks if it is suspended.\<close>

definition started :: "('pc \<Rightarrow> task) \<Rightarrow> task list \<Rightarrow> (('pc, 'r) progress) \<times> state \<Rightarrow> system" where
  "started mk ts res =
     (case res of
        (Suspended pc, s') \<Rightarrow> (s', ts @ [mk pc])
      | (Finished out, s') \<Rightarrow> (s', ts))"

text \<open>
  A resumed task stays at its place if it is suspended again, else it is gone. The route
  that awaits \<open>refreshCache\<close>, the list queries and the routes that await
  \<open>getMatchDetails\<close> catch what their call raises.
\<close>

definition resumed :: "('pc \<Rightarrow> task) \<Rightarrow> nat \<Rightarrow> task list \<Rightarrow> (('pc, 'r) progress) \<times> state \<Rightarrow> system" where
  "resumed mk i ts res =
     (case res of
        (Suspended pc, s') \<Rightarrow> (s', ts[i := mk pc])
      | (Finished out, s') \<Rightarrow> (s', take i ts @ drop (Suc i) ts))"

text \<open>
  The callbacks of the background timer are \<open>async () => { await Promise.all([...]) }\<close>
  with no \<open>catch\<close>, and the server installs no handler for unhandled rejections. When
  an updater the timer has called rejects, the rejection is unhandled and Node (version
  15 and later) ends the process: the cache it held in memory is gone, and none of its
  tasks runs on.
\<close>

definition exit_process :: "state \<Rightarrow> system" where
  "exit_process s = (s\<lparr>cache := empty_cache, exited := True\<rparr>, [])"

definition timer_resumed ::
  "region \<Rightarrow> nat \<Rightarrow> task list \<Rightarrow> ((refresh_pc, refresh_result) progress) \<times> state \<Rightarrow> system" where
  "timer_resumed r i ts res =
     (case res of
        (Finished (Rejected error), s') \<Rightarrow> exit_process s'
      | _ \<Rightarrow> resumed (Refresh r) i ts res)"

text \<open>A process that has ended does nothing.\<close>

definition step :: "action \<Rightarrow> system \<Rightarrow> system" where
  "step a sys =
     (case sys of (s, ts) \<Rightarrow>
        if exited s then (s, ts)
        else
        (case a of
           TriggerRefresh r now \<Rightarrow> started (Refresh r) ts (refresh_start r now s)
         | CallRefreshCache r now \<Rightarrow> started (Manual r) ts (refresh_start r now s)
         | CallGetMatches r now \<Rightarrow> started (Query r) ts (getMatches_start r now s)
         | CallGetMatchDetails mid now \<Rightarrow> started Details ts (getMatchDetails_start mid now s)
         | CallClearCache \<Rightarrow> (clearCache s, ts)
         | Deliver i ev \<Rightarrow>
             if i < length ts then
               (case ts ! i of
                  Refresh r pc \<Rightarrow> timer_resumed r i ts (refresh_resume r ev pc s)
                | Manual r pc \<Rightarrow> resumed (Manual r) i ts (refresh_resume r ev pc s)
                | Query r pc \<Rightarrow> resumed (Query r) i ts (getMatches_resume r ev pc s)
                | Details pc \<Rightarrow> resumed Details i ts (getMatchDetails_resume ev pc s))
             else (s, ts)))"

definition run :: "action list \<Rightarrow> system \<Rightarrow> system" where
  "run as sys = fold step as sys"

text \<open>The tasks that are refreshing a region.\<close>

fun refreshes :: "region \<Rightarrow> task \<Rightarrow> bool" where
  "refreshes r (Refresh r' pc) = (r' = r)"
| "refreshes r (Manual r' pc) = (r' = r)"
| "refreshes r (Query r' pc) = (r' = r)"
| "refreshes r (Details pc) = False"

definition refreshing :: "region \<Rightarrow> task list \<Rightarrow> nat" where
  "refreshing r ts = length (filter (refreshes r) ts)"

text \<open>The state when the module has loaded its keys, and nothing is running.\<close>

definition initial_state :: "key list \<Rightarrow> state" where
  "initial_state ks =
     \<lparr>keys = initial_keys ks, lastApiCallTime = 0, cache = empty_cache, exited = False\<rparr>"

definition initial_system :: "key list \<Rightarrow> system" where
  "initial_system ks = (initial_state ks, [])"

section \<open>Sample payloads\<close>

definition raw_match :: "bool option \<Rightarrow> bool option \<Rightarrow> datefield \<Rightarrow> string \<Rightarrow> match" where
  "raw_match hasStarted hasEnded dateTime ident =
     \<lparr>matchStarted = hasStarted, matchEnded = hasEnded, score = None, dateTimeGMT = dateTime, date = None,
      hasSquad = JUndefined, teams = None, m_players = Falsy, m_playerInfo = Falsy,
      m_props = [(''id'', JStr ident)]\<rparr>"

definition success :: "'a \<Rightarrow> 'a envelope" where
  "success d = \<lparr>status = ''success'', reason = None, data = Some d\<rparr>"

section \<open>Notions used in the statements\<close>

text \<open>A comparator that is, on a set of elements, the difference of a key.\<close>

definition keyed :: "('a \<Rightarrow> 'a \<Rightarrow> int option) \<Rightarrow> ('a \<Rightarrow> int) \<Rightarrow> 'a set \<Rightarrow> bool" where
  "keyed c k S = (\<forall>x\<in>S. \<forall>y\<in>S. sortCompare c x y = k y - k x)"

text \<open>Whether a part of a task ended the task.\<close>

fun is_finished :: "('pc, 'r) progress \<Rightarrow> bool" where
  "is_finished (Suspended pc) = False"
| "is_finished (Finished out) = True"

text \<open>
  The busy flags after a part of a task of region \<open>r\<close>: the flag of \<open>r\<close> is down if
  the task has ended, and nothing else has changed.
\<close>

definition flags_after :: "region \<Rightarrow> (('pc, 'r) progress) \<Rightarrow> state \<Rightarrow> state \<Rightarrow> bool" where
  "flags_after r p s s' =
     (\<forall>r'. isUpdating r' (cache s') = (if is_finished p \<and> r' = r then False else isUpdating r' (cache s)))"

text \<open>The match id a call of \<open>getMatchDetails\<close> works on, and the clock reading of an event.\<close>

fun call_matchId :: "md_call \<Rightarrow> string" where
  "call_matchId (InfoCall mid k) = mid"
| "call_matchId (StageCall stage ctx) = matchId ctx"

fun pc_matchId :: "md_pc \<Rightarrow> string" where
  "pc_matchId (MStartThrottle deadline mid) = mid"
| "pc_matchId (MStartTick mid) = mid"
| "pc_matchId (MThrottle deadline stage ctx) = matchId ctx"
| "pc_matchId (MTick stage ctx) = matchId ctx"
| "pc_matchId (MHttp call k a n) = call_matchId call"
| "pc_matchId (MDelay deadline call k a n e) = call_matchId call"

fun event_time :: "event \<Rightarrow> timestamp" where
  "event_time (Timer t) = t"
| "event_time (Tick t) = t"
| "event_time (MatchesResponse t r) = t"
| "event_time (InfoResponse t r) = t"
| "event_time (SquadResponse t r) = t"
| "event_time (ScorecardResponse t r) = t"

text \<open>
  How a part of \<open>getMatchDetails\<close> for the id \<open>mid\<close> may end. Suspended, it has left
  the cache as it was. Raising, it has left the cache as it was and the cache holds
  nothing for the id. Returning \<open>d\<close>, either the cache is as it was and holds \<open>d\<close>
  for the id, or \<open>d\<close> has just been stored for the id and nothing else has changed.
\<close>

fun md_outcome :: "string \<Rightarrow> timestamp \<Rightarrow> md_progress \<Rightarrow> state \<Rightarrow> state \<Rightarrow> bool" where
  "md_outcome mid now (Suspended pc) s s' = (cache s' = cache s \<and> pc_matchId pc = mid)"
| "md_outcome mid now (Finished (Rejected e)) s s' =
     (cache s' = cache s \<and> matchDetails (cache s) mid = None)"
| "md_outcome mid now (Finished (Resolved d)) s s' =
     ((cache s' = cache s \<and> (\<exists>ts. matchDetails (cache s) mid = Some (d, ts)))
      \<or> cache s' = (cache s)\<lparr>matchDetails := (matchDetails (cache s))(mid \<mapsto> (d, now))\<rparr>)"

text \<open>Each region has a task refreshing it exactly when its busy flag is up, and then one.\<close>

definition busy_inv :: "system \<Rightarrow> bool" where
  "busy_inv sys = (case sys of (s, ts) \<Rightarrow>
      refreshing Current ts = (if isUpdatingCurrent (cache s) then 1 else 0) \<and>
      refreshing Upcoming ts = (if isUpdatingUpcoming (cache s) then 1 else 0))"

text \<open>A match that has not started, with a number for its id.\<close>

definition numbered :: "int \<Rightarrow> match" where
  "numbered i = 
     \<lparr>matchStarted = Some False, matchEnded = None, score = None, dateTimeGMT = None, date = None,
      hasSquad = JUndefined, teams = None, m_players = Falsy, m_playerInfo = Falsy,
      m_props = [(''id'', JNum i)]\<rparr>"




text \<open>The error axios raises when a request has no answer within its 30 seconds.\<close>

definition timed_out :: js_error where
  "timed_out = Error ''timeout of 30000ms exceeded''"

text \<open>A state whose Current cache holds ten entries, with a refresh of it in flight.\<close>

definition ten_matches :: "match list" where
  "ten_matches = map (raw_match (Some True) (Some False) None)
     [''m0'', ''m1'', ''m2'', ''m3'', ''m4'', ''m5'', ''m6'', ''m7'', ''m8'', ''m9'']"

definition stale_state :: state where
  "stale_state =
     (initial_state [''A''])
       \<lparr>lastApiCallTime := 60000,
        cache := empty_cache\<lparr>current := Some ten_matches, lastFetch_current := Some 1000,
                              isUpdatingCurrent := True\<rparr>\<rparr>"

text \<open>
  A state whose Current cache holds ten entries, with nothing in flight; and what follows
  when the background timer then calls the Current updater and the request times out.
\<close>

definition ten_cached :: state where
  "ten_cached =
     (initial_state [''A''])
       \<lparr>lastApiCallTime := 60000,
        cache := empty_cache\<lparr>current := Some ten_matches, lastFetch_current := Some 1000\<rparr>\<rparr>"

definition timer_refresh :: "action list" where
  "timer_refresh =
     [TriggerRefresh Current 80000,
      Deliver 0 (Tick 80000),
      Deliver 0 (MatchesResponse 110000 (HttpErr timed_out))]"



text \<open>
  The batters of an inning with a name, in batting order: those not dismissed, and those
  dismissed.
\<close>

definition battersIn :: "batting_entry list \<Rightarrow> batsmanData list" where
  "battersIn es = List.map_filter batsmanDataOf (filter (\<lambda>e. \<not> dismissed e) es)"

definition battersOut :: "batting_entry list \<Rightarrow> batsmanData list" where
  "battersOut es = List.map_filter batsmanDataOf (filter dismissed es)"

text \<open>Sample scorecards: one inning, with six dismissed batters, or with three at the crease.\<close>

definition batting_row :: "string \<Rightarrow> jsval \<Rightarrow> batting_entry" where
  "batting_row n dismissal =
     \<lparr>batsman = Some \<lparr>name = Some n, props = [(''id'', JStr n)]\<rparr>,
      bat_props = [(''r'', JNum 10), (''b'', JNum 12), (''dismissal'', dismissal)]\<rparr>"

definition card_of :: "batting_entry list \<Rightarrow> scorecard_payload envelope" where
  "card_of es =
     success \<lparr>scorecard = Some [\<lparr>batting = Some es, bowling = None, team = Some ''India'', in_props = []\<rparr>]\<rparr>"

definition six_out :: "scorecard_payload envelope" where
  "six_out = card_of (map (\<lambda>n. batting_row n (JStr ''bowled'')) [''B1'', ''B2'', ''B3'', ''B4'', ''B5'', ''B6''])"

definition three_in :: "scorecard_payload envelope" where
  "three_in = card_of (map (\<lambda>n. batting_row n JUndefined) [''B1'', ''B2'', ''B3''])"

text \<open>
  The key of a player in \<open>allPlayersMap\<close>, if its name is truthy; whether a player
  object has a property; and the value of a property after a list of records has been
  merged in turn, each record that has the property replacing the value.
\<close>

definition key_of :: "player \<Rightarrow> string option" where
  "key_of p = (case name p of None \<Rightarrow> None | Some n \<Rightarrow> if n = [] then None else Some (toLowerCase n))"

definition carries :: "player \<Rightarrow> string \<Rightarrow> bool" where
  "carries p f = (f \<in> fst ` set (props p))"

definition latest :: "string \<Rightarrow> jsval \<Rightarrow> player list \<Rightarrow> jsval" where
  "latest f v ps = foldl (\<lambda>v p. if carries p f then get_prop (props p) f else v) v ps"

definition statFields :: "string list" where
  "statFields = [''runs'', ''balls'', ''fours'', ''sixes'', ''strikeRate'',
                 ''overs'', ''wickets'', ''maidens'', ''economy'']"

definition squadOnlyFields :: "string list" where
  "squadOnlyFields = [''battingStyle'', ''bowlingStyle'', ''country'']"

text \<open>The two merges of an existing entry with a record, as the passes write them.\<close>

definition merged :: "player \<Rightarrow> player \<Rightarrow> player" where
  "merged ex p = \<lparr>name = name p, props = spread (props ex) (props p)\<rparr>"

definition mergedKeepImage :: "player \<Rightarrow> player \<Rightarrow> player" where
  "mergedKeepImage ex p =
     \<lparr>name = name p,
      props = AList.update ''image''
                (js_or (get_prop (props ex) ''image'') (get_prop (props p) ''image''))
                (spread (props ex) (props p))\<rparr>"

text \<open>
  Sample answers for one player: in the squad with a role and an image, in the scorecard
  with ten runs, and in the live score with 55 runs and no image.
\<close>

definition sample_squad :: squadData where
  "sample_squad = extractSquadData (Some
     [\<lparr>tm_players = Some [\<lparr>name = Some ''Virat Kohli'',
                             props = [(''id'', JStr ''p1''), (''role'', JStr ''WK-Batsman''),
                                      (''battingStyle'', JStr ''Right Handed Bat''),
                                      (''playerImg'', JStr ''kohli.png'')]\<rparr>]\<rparr>])"

definition sample_card :: "scorecard_payload envelope" where
  "sample_card = card_of [batting_row ''Virat Kohli'' JUndefined]"

definition sample_score :: "score_inning list" where
  "sample_score =
     [\<lparr>batsmen = Some [Some \<lparr>name = Some ''virat kohli'', props = [(''r'', JNum 55)]\<rparr>],
       bowlers = None, si_props = []\<rparr>]"

definition sample_match :: match where
  "sample_match = (raw_match (Some True) (Some False) None ''m1'')\<lparr>score := Some sample_score\<rparr>"


section \<open>Properties of the key pool\<close>

lemma loop_Some:
  "getApiKey_loop ks m now a i = (Some k, j) \<Longrightarrow> \<not> isBlocked m k now \<and> key_at ks j = Some k"
proof (induction ks m now a i rule: getApiKey_loop.induct)
  case (1 ks m now attempts i)
  show ?case
  proof (cases "attempts < length ks")
    case False
    with "1.prems" show ?thesis by (simp add: getApiKey_loop.simps)
  next
    case True
    show ?thesis
    proof (cases "key_at ks i")
      case None
      with True "1.prems" show ?thesis by (simp add: getApiKey_loop.simps)
    next
      case (Some k')
      show ?thesis
      proof (cases "isBlocked m k' now")
        case False
        with True Some "1.prems" show ?thesis by (simp add: getApiKey_loop.simps)
      next
        case blocked: True
        with True Some "1.prems"
        have "getApiKey_loop ks m now (attempts + 1) (next_index i (length ks)) = (Some k, j)"
          by (simp add: getApiKey_loop.simps)
        with "1.IH"[OF True Some] blocked show ?thesis by simp
      qed
    qed
  qed
qed

lemma loop_None:
  "getApiKey_loop ks m now a i = (None, j) \<Longrightarrow>
     key_at ks j = None \<or>
     (\<exists>n. i = Ix n \<and> n < length ks \<and>
        (\<forall>d < length ks - a. isBlocked m (ks ! ((n + d) mod length ks)) now))"
proof (induction ks m now a i rule: getApiKey_loop.induct)
  case (1 ks m now attempts i)
  show ?case
  proof (cases "attempts < length ks")
    case False
    with "1.prems" have "j = i" by (simp add: getApiKey_loop.simps)
    show ?thesis
    proof (cases "key_at ks i")
      case None with \<open>j = i\<close> show ?thesis by simp
    next
      case (Some k')
      then obtain n where "i = Ix n" "n < length ks"
        by (auto simp: key_at_def split: jsindex.splits if_splits)
      with False show ?thesis by auto
    qed
  next
    case True
    show ?thesis
    proof (cases "key_at ks i")
      case None
      with True "1.prems" show ?thesis by (simp add: getApiKey_loop.simps)
    next
      case (Some k')
      then obtain n where n: "i = Ix n" "n < length ks" "k' = ks ! n"
        by (auto simp: key_at_def split: jsindex.splits if_splits)
      show ?thesis
      proof (cases "isBlocked m k' now")
        case False
        with True Some "1.prems" show ?thesis by (simp add: getApiKey_loop.simps)
      next
        case blocked: True
        with True Some "1.prems"
        have rec: "getApiKey_loop ks m now (attempts + 1) (next_index i (length ks)) = (None, j)"
          by (simp add: getApiKey_loop.simps)
        from "1.IH"[OF True Some _ rec] blocked
        consider "key_at ks j = None"
          | n' where "next_index i (length ks) = Ix n'" "n' < length ks"
              "\<forall>d < length ks - (attempts + 1). isBlocked m (ks ! ((n' + d) mod length ks)) now"
          by auto
        then show ?thesis
        proof cases
          case 1 then show ?thesis by simp
        next
          case 2
          from 2(1) n have n': "n' = (n + 1) mod length ks"
            by (auto simp: next_index_def split: if_splits)
          have "\<forall>d < length ks - attempts. isBlocked m (ks ! ((n + d) mod length ks)) now"
          proof (intro allI impI)
            fix d assume d: "d < length ks - attempts"
            show "isBlocked m (ks ! ((n + d) mod length ks)) now"
            proof (cases d)
              case 0 with blocked n show ?thesis by simp
            next
              case (Suc d')
              with d have "d' < length ks - (attempts + 1)" by simp
              with 2(3) have "isBlocked m (ks ! ((n' + d') mod length ks)) now" by simp
              moreover have "(n' + d') mod length ks = (n + d) mod length ks"
                unfolding n' Suc by (simp add: mod_add_left_eq)
              ultimately show ?thesis by simp
            qed
          qed
          with n show ?thesis by auto
        qed
      qed
    qed
  qed
qed

lemma loop_None_all:
  assumes "getApiKey_loop ks m now 0 i = (None, j)" "key_at ks j = Some k"
  shows "\<forall>k'\<in>set ks. isBlocked m k' now"
proof -
  from loop_None[OF assms(1)] assms(2) obtain n where
    n: "i = Ix n" "n < length ks" "\<forall>d < length ks. isBlocked m (ks ! ((n + d) mod length ks)) now"
    by auto
  show ?thesis
  proof
    fix k' assume "k' \<in> set ks"
    then obtain p where p: "p < length ks" "ks ! p = k'" by (auto simp: in_set_conv_nth)
    define d where "d = (p + length ks - n) mod length ks"
    have pos: "0 < length ks" using n(2) by (cases ks) auto
    have "d < length ks" unfolding d_def using pos by (rule mod_less_divisor)
    moreover have "(n + d) mod length ks = p"
    proof -
      have "(n + d) mod length ks = (n + (p + length ks - n)) mod length ks"
        unfolding d_def by (simp add: mod_add_right_eq)
      also have "n + (p + length ks - n) = p + length ks" using n(2) by simp
      also have "(p + length ks) mod length ks = p" using p(1) by simp
      finally show ?thesis .
    qed
    ultimately show "isBlocked m k' now" using n(3) p(2) by auto
  qed
qed

lemma getApiKey_blocked_all:
  assumes "fst (getApiKey now s) = Inr (Some k)" "isBlocked (keyRateLimitMap s) k now"
  shows "\<forall>k'\<in>set (apiKeys s). isBlocked (keyRateLimitMap s) k' now"
proof -
  from assms(1) have ne: "apiKeys s \<noteq> []" by (auto simp: getApiKey_def)
  obtain r j where loop: "getApiKey_loop (apiKeys s) (keyRateLimitMap s) now 0 (currentKeyIndex s) = (r, j)"
    by (cases "getApiKey_loop (apiKeys s) (keyRateLimitMap s) now 0 (currentKeyIndex s)")
  show ?thesis
  proof (cases r)
    case None
    with assms(1) ne loop have "key_at (apiKeys s) j = Some k"
      by (auto simp: getApiKey_def Let_def key_truthy_def split: option.splits)
    with loop None show ?thesis using loop_None_all by blast
  next
    case (Some k0)
    with loop_Some loop have k0: "\<not> isBlocked (keyRateLimitMap s) k0 now" "key_at (apiKeys s) j = Some k0"
      by blast+
    with assms(1) ne loop Some have "k = k0"
      by (auto simp: getApiKey_def Let_def key_truthy_def split: option.splits if_splits)
    with k0 assms(2) show ?thesis by simp
  qed
qed

lemma getApiKey_keeps:
  "keyRateLimitMap (snd (getApiKey now s)) = keyRateLimitMap s \<and> apiKeys (snd (getApiKey now s)) = apiKeys s"
  by (auto simp: getApiKey_def Let_def split: prod.splits option.splits)

lemma pool_step_keeps_block:
  assumes "keyRateLimitMap s k = Some (Some b)" "T + blockDuration \<le> b" "T \<le> op_time x"
  shows "\<exists>b'. keyRateLimitMap (pool_step x s) k = Some (Some b') \<and> T + blockDuration \<le> b'"
proof (cases x)
  case (Acquire t)
  with assms show ?thesis by (simp add: getApiKey_keeps)
next
  case (Mark k' t)
  with assms show ?thesis by (auto simp: markKeyAsRateLimited_def)
qed

lemma pool_run_keeps_block:
  assumes "keyRateLimitMap s k = Some (Some b)" "T + blockDuration \<le> b" "\<forall>x\<in>set ops. T \<le> op_time x"
  shows "\<exists>b'. keyRateLimitMap (pool_run ops s) k = Some (Some b') \<and> T + blockDuration \<le> b'"
  using assms
proof (induction ops arbitrary: s b)
  case Nil
  then show ?case by (simp add: pool_run_def)
next
  case (Cons x xs)
  from pool_step_keeps_block[OF Cons.prems(1,2), of x] Cons.prems(3)
  obtain b' where "keyRateLimitMap (pool_step x s) k = Some (Some b')" "T + blockDuration \<le> b'"
    by auto
  from Cons.IH[OF this] Cons.prems(3) show ?case by (simp add: pool_run_def)
qed

text \<open>
  Claim C1, as the code has it. A key is marked rate-limited at time \<open>T\<close>; any
  operations of the pool follow, none earlier than \<open>T\<close>. If \<open>getApiKey\<close> then
  returns that key at a time before \<open>T\<close> + 16 minutes, every key of the pool is
  blocked at that time: a blocked key is handed out only when no key is free.
\<close>

theorem getApiKey_skips_rate_limited:
  assumes "0 \<le> T"
      and "\<forall>x\<in>set ops. T \<le> op_time x"
      and "s1 = pool_run ops (markKeyAsRateLimited k T s)"
      and "now < T + blockDuration"
      and "fst (getApiKey now s1) = Inr (Some k)"
    shows "\<forall>k'\<in>set (apiKeys s1). isBlocked (keyRateLimitMap s1) k' now"
proof -
  have "keyRateLimitMap (markKeyAsRateLimited k T s) k = Some (Some (T + blockDuration))"
    by (simp add: markKeyAsRateLimited_def)
  from pool_run_keeps_block[OF this order_refl assms(2)] assms(3)
  obtain b where b: "keyRateLimitMap s1 k = Some (Some b)" "T + blockDuration \<le> b" by auto
  from assms(1) have "0 < T + blockDuration" by (simp add: blockDuration_def)
  with b assms(4) have "isBlocked (keyRateLimitMap s1) k now"
    by (simp add: isBlocked_def)
  with assms(5) show ?thesis by (rule getApiKey_blocked_all)
qed

lemmas pool_eval = pool_run_def markKeyAsRateLimited_def initial_keys_def getApiKey_def getApiKey_loop.simps
      key_at_def next_index_def isBlocked_def blockDuration_def key_truthy_def

theorem getApiKey_skips_rate_limited_witness:
  "(5000::int) < 1000 + blockDuration
   \<and> fst (getApiKey 5000 (pool_run [Mark ''B'' 2000, Acquire 3000]
         (markKeyAsRateLimited ''A'' 1000 (initial_keys [''A'', ''B''])))) = Inr (Some ''A'')
   \<and> isBlocked (keyRateLimitMap (pool_run [Mark ''B'' 2000, Acquire 3000]
         (markKeyAsRateLimited ''A'' 1000 (initial_keys [''A'', ''B''])))) ''A'' 5000
   \<and> isBlocked (keyRateLimitMap (pool_run [Mark ''B'' 2000, Acquire 3000]
         (markKeyAsRateLimited ''A'' 1000 (initial_keys [''A'', ''B''])))) ''B'' 5000"
proof -
  let ?s1 = "pool_run [Mark ''B'' 2000, Acquire 3000]
         (markKeyAsRateLimited ''A'' 1000 (initial_keys [''A'', ''B'']))"
  have h1: "(0::int) \<le> 1000" by simp
  have h2: "\<forall>x\<in>set [Mark ''B'' 2000, Acquire 3000]. 1000 \<le> op_time x" by simp
  have h4: "(5000::int) < 1000 + blockDuration" by (simp add: blockDuration_def)
  have h5: "fst (getApiKey 5000 ?s1) = Inr (Some ''A'')"
    by (simp add: pool_eval)
  have ks: "apiKeys ?s1 = [''A'', ''B'']"
    by (simp add: pool_eval)
  from getApiKey_skips_rate_limited[OF h1 h2 refl h4 h5]
  have "\<forall>k'\<in>set (apiKeys ?s1). isBlocked (keyRateLimitMap ?s1) k' 5000" .
  then have "isBlocked (keyRateLimitMap ?s1) ''A'' 5000" "isBlocked (keyRateLimitMap ?s1) ''B'' 5000"
    unfolding ks by simp_all
  with h4 h5 show ?thesis by blast
qed

text \<open>
  Claim C1 as stated fails: in a pool of two keys, both marked, \<open>getApiKey\<close> returns
  the first one four seconds after it was marked, although it is not the only key.
\<close>

theorem getApiKey_returns_blocked_key_counterexample:
  "fst (getApiKey 5000 (pool_run [Mark ''B'' 2000]
         (markKeyAsRateLimited ''A'' 1000 (initial_keys [''A'', ''B''])))) = Inr (Some ''A'')
   \<and> (5000::int) < 1000 + blockDuration
   \<and> apiKeys (pool_run [Mark ''B'' 2000]
         (markKeyAsRateLimited ''A'' 1000 (initial_keys [''A'', ''B'']))) = [''A'', ''B'']"
  by (simp add: pool_eval)

section \<open>Properties of the classification\<close>

text \<open>The sorted list holds the elements of the array.\<close>

lemma runRest_le: "runRest c d p xs \<le> length xs"
  by (induction xs arbitrary: p) auto

lemma mset_rev_take_drop: "mset (rev (take k xs) @ drop k xs) = mset xs"
  by (metis append_take_drop_id mset_append mset_rev)

lemma countAndMakeRun_cases:
  assumes "countAndMakeRun c xs = (n, ws)"
  shows "ws = xs \<or> ws = rev (take n xs) @ drop n xs"
  using assms by (auto simp: countAndMakeRun_def Let_def split: list.splits if_splits)

lemma mset_countAndMakeRun: "countAndMakeRun c xs = (n, ws) \<Longrightarrow> mset ws = mset xs"
  using countAndMakeRun_cases[of c xs n ws] mset_rev_take_drop[of n xs] by auto

lemma mset_take_insert_drop: "mset (take l ws @ p # drop l ws) = add_mset p (mset ws)"
proof -
  have "mset (take l ws) + mset (drop l ws) = mset ws"
    by (metis append_take_drop_id mset_append)
  then show ?thesis by simp
qed

lemma mset_binaryInsert: "mset (binaryInsert c ws p) = add_mset p (mset ws)"
  by (simp only: binaryInsert_def Let_def mset_take_insert_drop)

lemma mset_foldl_binaryInsert: "mset (foldl (binaryInsert c) acc xs) = mset acc + mset xs"
  by (induction xs arbitrary: acc) (simp_all add: mset_binaryInsert)

lemma mset_binaryInsertionSort: "mset (binaryInsertionSort c n ws) = mset ws"
  by (simp add: binaryInsertionSort_def mset_foldl_binaryInsert flip: mset_append)

lemma mset_js_sort: "mset (js_sort c xs) = mset xs"
  by (auto simp: js_sort_def mset_binaryInsertionSort dest: mset_countAndMakeRun split: prod.splits)

text \<open>
  When the comparator is the difference of a key on the elements, the sorted list is in
  descending order of the key.
\<close>

lemma keyedD: "keyed c k S \<Longrightarrow> x \<in> S \<Longrightarrow> y \<in> S \<Longrightarrow> sortCompare c x y = k y - k x"
  by (simp add: keyed_def)

lemma runRest_ascending:
  assumes "keyed c k S" "p \<in> S" "set xs \<subseteq> S"
  shows "sorted_wrt (\<lambda>x y. k y \<le> k x) (p # take (runRest c False p xs) xs)"
  using assms(2,3)
proof (induction xs arbitrary: p)
  case Nil
  then show ?case by simp
next
  case (Cons x xs)
  from Cons.prems have x: "x \<in> S" and xs: "set xs \<subseteq> S" by auto
  have o: "sortCompare c x p = k p - k x" using keyedD[OF assms(1) x Cons.prems(1)] .
  show ?case
  proof (cases "sortCompare c x p < 0")
    case True
    then show ?thesis by simp
  next
    case False
    with o have le: "k x \<le> k p" by simp
    from Cons.IH[OF x xs] have ih: "sorted_wrt (\<lambda>x y. k y \<le> k x) (x # take (runRest c False x xs) xs)" .
    then have "\<forall>y\<in>set (take (runRest c False x xs) xs). k y \<le> k x" by simp
    with le have "\<forall>y\<in>set (x # take (runRest c False x xs) xs). k y \<le> k p" by auto
    with ih False show ?thesis by simp
  qed
qed

lemma runRest_descending:
  assumes "keyed c k S" "p \<in> S" "set xs \<subseteq> S"
  shows "sorted_wrt (\<lambda>x y. k x < k y) (p # take (runRest c True p xs) xs)"
  using assms(2,3)
proof (induction xs arbitrary: p)
  case Nil
  then show ?case by simp
next
  case (Cons x xs)
  from Cons.prems have x: "x \<in> S" and xs: "set xs \<subseteq> S" by auto
  have o: "sortCompare c x p = k p - k x" using keyedD[OF assms(1) x Cons.prems(1)] .
  show ?case
  proof (cases "sortCompare c x p \<ge> 0")
    case True
    then show ?thesis by simp
  next
    case False
    with o have le: "k p < k x" by simp
    from Cons.IH[OF x xs] have ih: "sorted_wrt (\<lambda>x y. k x < k y) (x # take (runRest c True x xs) xs)" .
    then have "\<forall>y\<in>set (take (runRest c True x xs) xs). k x < k y" by simp
    with le have "\<forall>y\<in>set (x # take (runRest c True x xs) xs). k p < k y" by auto
    with ih False show ?thesis by simp
  qed
qed

lemma countAndMakeRun_sorted:
  assumes ky: "keyed c k S" and S: "set xs \<subseteq> S" and r: "countAndMakeRun c xs = (n, ws)"
  shows "n \<le> length ws \<and> sorted_wrt (\<lambda>x y. k y \<le> k x) (take n ws)"
proof (cases xs)
  case Nil
  with r show ?thesis by (simp add: countAndMakeRun_def)
next
  case (Cons eh t)
  show ?thesis
  proof (cases t)
    case Nil
    with \<open>xs = eh # t\<close> r show ?thesis by (auto simp: countAndMakeRun_def)
  next
    case (Cons el rest)
    note xs = \<open>xs = eh # t\<close> Cons
    from S xs have mem: "eh \<in> S" "el \<in> S" "set rest \<subseteq> S" by auto
    have o: "sortCompare c el eh = k eh - k el" using keyedD[OF ky mem(2) mem(1)] .
    show ?thesis
    proof (cases "sortCompare c el eh < 0")
      case False
      let ?m = "runRest c False el rest"
      have "countAndMakeRun c xs = (2 + ?m, xs)"
        using xs False by (simp add: countAndMakeRun_def Let_def)
      with r have n: "n = 2 + ?m" and ws: "ws = xs" by simp_all
      have len: "n \<le> length ws" using n ws xs runRest_le[of c False el rest] by simp
      have tk: "take n ws = eh # el # take ?m rest" using n ws xs by simp
      from runRest_ascending[OF ky mem(2) mem(3)]
      have s: "sorted_wrt (\<lambda>x y. k y \<le> k x) (el # take ?m rest)" .
      from False o have "k el \<le> k eh" by simp
      with s have "\<forall>y\<in>set (el # take ?m rest). k y \<le> k eh" by auto
      with s have "sorted_wrt (\<lambda>x y. k y \<le> k x) (eh # el # take ?m rest)" by simp
      with len tk show ?thesis by simp
    next
      case True
      let ?m = "runRest c True el rest"
      have "countAndMakeRun c xs = (2 + ?m, rev (take (2 + ?m) xs) @ drop (2 + ?m) xs)"
        using xs True by (simp add: countAndMakeRun_def Let_def)
      with r have n: "n = 2 + ?m" and ws: "ws = rev (take n xs) @ drop n xs" by auto
      have nl: "n \<le> length xs" using n xs runRest_le[of c True el rest] by simp
      then have len: "n \<le> length ws" using ws by simp
      have tk: "take n ws = rev (eh # el # take ?m rest)" using n ws xs nl by simp
      from runRest_descending[OF ky mem(2) mem(3)]
      have s: "sorted_wrt (\<lambda>x y. k x < k y) (el # take ?m rest)" .
      from True o have "k eh < k el" by simp
      with s have "\<forall>y\<in>set (el # take ?m rest). k eh < k y" by auto
      with s have "sorted_wrt (\<lambda>x y. k x < k y) (eh # el # take ?m rest)" by simp
      then have "sorted_wrt (\<lambda>x y. k y < k x) (rev (eh # el # take ?m rest))"
        by (simp only: sorted_wrt_rev)
      then have "sorted_wrt (\<lambda>x y. k y \<le> k x) (rev (eh # el # take ?m rest))"
        by (rule sorted_wrt_mono_rel[rotated]) simp
      with len tk show ?thesis by simp
    qed
  qed
qed

lemma binarySearch_place:
  assumes ky: "keyed c k S" and S: "set ws \<subseteq> S" "pivot \<in> S"
    and srt: "sorted_wrt (\<lambda>x y. k y \<le> k x) ws"
    and b: "left \<le> right" "right \<le> length ws"
    and lo: "\<forall>i<left. k pivot \<le> k (ws ! i)"
    and hi: "\<forall>i. right \<le> i \<and> i < length ws \<longrightarrow> k (ws ! i) < k pivot"
  shows "binarySearch c pivot ws left right \<le> length ws
         \<and> (\<forall>i<binarySearch c pivot ws left right. k pivot \<le> k (ws ! i))
         \<and> (\<forall>i. binarySearch c pivot ws left right \<le> i \<and> i < length ws \<longrightarrow> k (ws ! i) < k pivot)"
  using b lo hi
proof (induction "right - left" arbitrary: left right rule: less_induct)
  case less
  show ?case
  proof (cases "left < right")
    case False
    with less.prems have "left = right" by simp
    with less.prems show ?thesis by (simp add: binarySearch.simps[of c pivot ws right right])
  next
    case True
    define mid where "mid = left + (right - left) div 2"
    have m: "left \<le> mid" "mid < right" using True by (simp_all add: mid_def)
    with less.prems have ml: "mid < length ws" by simp
    then have "ws ! mid \<in> S" using S by auto
    from keyedD[OF ky S(2) this] have o: "sortCompare c pivot (ws ! mid) = k (ws ! mid) - k pivot" .
    have mono: "k (ws ! j) \<le> k (ws ! i)" if "i \<le> j" "j < length ws" for i j
    proof (cases "i = j")
      case True then show ?thesis by simp
    next
      case False
      with that have "i < j" by simp
      with srt that show ?thesis by (simp add: sorted_wrt_iff_nth_less)
    qed
    show ?thesis
    proof (cases "sortCompare c pivot (ws ! mid) < 0")
      case lt: True
      have e: "binarySearch c pivot ws left right = binarySearch c pivot ws left mid"
        using True lt by (simp add: binarySearch.simps[of c pivot ws left right] mid_def Let_def)
      have hi': "\<forall>i. mid \<le> i \<and> i < length ws \<longrightarrow> k (ws ! i) < k pivot"
      proof (intro allI impI)
        fix i assume "mid \<le> i \<and> i < length ws"
        then have "k (ws ! i) \<le> k (ws ! mid)" using mono by simp
        with lt o show "k (ws ! i) < k pivot" by simp
      qed
      have "mid - left < right - left" using m by simp
      from less.hyps[OF this m(1) _ less.prems(3) hi'] ml show ?thesis unfolding e by simp
    next
      case ge: False
      have e: "binarySearch c pivot ws left right = binarySearch c pivot ws (mid + 1) right"
        using True ge by (simp add: binarySearch.simps[of c pivot ws left right] mid_def Let_def)
      have lo': "\<forall>i<mid + 1. k pivot \<le> k (ws ! i)"
      proof (intro allI impI)
        fix i assume "i < mid + 1"
        then have "k (ws ! mid) \<le> k (ws ! i)" using mono[of i mid] ml by simp
        with ge o show "k pivot \<le> k (ws ! i)" by simp
      qed
      have "right - (mid + 1) < right - left" using m by simp
      from less.hyps[OF this _ less.prems(2) lo' less.prems(4)] m show ?thesis unfolding e by simp
    qed
  qed
qed

lemma binaryInsert_sorted:
  assumes ky: "keyed c k S" and S: "set ws \<subseteq> S" "pivot \<in> S"
    and srt: "sorted_wrt (\<lambda>x y. k y \<le> k x) ws"
  shows "sorted_wrt (\<lambda>x y. k y \<le> k x) (binaryInsert c ws pivot)"
proof -
  define l where "l = binarySearch c pivot ws 0 (length ws)"
  from binarySearch_place[OF ky S srt, of 0 "length ws"]
  have l: "l \<le> length ws" "\<forall>i<l. k pivot \<le> k (ws ! i)"
    "\<forall>i. l \<le> i \<and> i < length ws \<longrightarrow> k (ws ! i) < k pivot"
    by (simp_all add: l_def)
  from srt have "sorted_wrt (\<lambda>x y. k y \<le> k x) (take l ws @ drop l ws)" by simp
  then have parts: "sorted_wrt (\<lambda>x y. k y \<le> k x) (take l ws)" "sorted_wrt (\<lambda>x y. k y \<le> k x) (drop l ws)"
    and cross: "\<forall>x\<in>set (take l ws). \<forall>y\<in>set (drop l ws). k y \<le> k x"
    unfolding sorted_wrt_append by simp_all
  have before: "\<forall>x\<in>set (take l ws). k pivot \<le> k x"
  proof
    fix x assume "x \<in> set (take l ws)"
    then obtain i where "i < length (take l ws)" "x = take l ws ! i" by (auto simp: in_set_conv_nth)
    then have "i < l" "x = ws ! i" by simp_all
    with l(2) show "k pivot \<le> k x" by simp
  qed
  have after: "\<forall>y\<in>set (drop l ws). k y \<le> k pivot"
  proof
    fix y assume "y \<in> set (drop l ws)"
    then obtain i where "i < length (drop l ws)" "y = drop l ws ! i" by (auto simp: in_set_conv_nth)
    then have "l + i < length ws" "y = ws ! (l + i)" using l(1) by simp_all
    with l(3) have "k y < k pivot" by simp
    then show "k y \<le> k pivot" by simp
  qed
  have "sorted_wrt (\<lambda>x y. k y \<le> k x) (take l ws @ pivot # drop l ws)"
    unfolding sorted_wrt_append using parts cross before after by simp
  then show ?thesis by (simp add: binaryInsert_def l_def Let_def)
qed

lemma set_binaryInsert: "set (binaryInsert c ws p) = insert p (set ws)"
  using mset_binaryInsert[of c ws p] by (metis set_mset_add_mset_insert set_mset_mset)

lemma foldl_binaryInsert_sorted:
  assumes ky: "keyed c k S"
  shows "set acc \<subseteq> S \<Longrightarrow> set xs \<subseteq> S \<Longrightarrow> sorted_wrt (\<lambda>x y. k y \<le> k x) acc \<Longrightarrow>
         sorted_wrt (\<lambda>x y. k y \<le> k x) (foldl (binaryInsert c) acc xs)"
proof (induction xs arbitrary: acc)
  case Nil
  then show ?case by simp
next
  case (Cons x xs)
  from Cons.prems have x: "x \<in> S" and xs: "set xs \<subseteq> S" by auto
  have s: "sorted_wrt (\<lambda>x y. k y \<le> k x) (binaryInsert c acc x)"
    using binaryInsert_sorted[OF ky Cons.prems(1) x Cons.prems(3)] .
  have "set (binaryInsert c acc x) \<subseteq> S" using Cons.prems(1) x by (simp add: set_binaryInsert)
  from Cons.IH[OF this xs s] show ?case by simp
qed

lemma js_sort_sorted:
  assumes ky: "keyed c k (set xs)"
  shows "sorted_wrt (\<lambda>x y. k y \<le> k x) (js_sort c xs)"
proof (cases "length xs < 2")
  case True
  then have "xs = [] \<or> (\<exists>x. xs = [x])" by (cases xs; cases "tl xs") auto
  then show ?thesis by (auto simp: js_sort_def)
next
  case False
  obtain n ws where r: "countAndMakeRun c xs = (n, ws)" by (cases "countAndMakeRun c xs")
  from mset_countAndMakeRun[OF r] have st: "set ws = set xs" by (metis set_mset_mset)
  from countAndMakeRun_sorted[OF ky subset_refl r]
  have n: "n \<le> length ws" and s: "sorted_wrt (\<lambda>x y. k y \<le> k x) (take n ws)" by simp_all
  have "sorted_wrt (\<lambda>x y. k y \<le> k x) (foldl (binaryInsert c) (take n ws) (drop n ws))"
  proof (rule foldl_binaryInsert_sorted[OF ky _ _ s])
    show "set (take n ws) \<subseteq> set xs" using st by (metis set_take_subset)
    show "set (drop n ws) \<subseteq> set xs" using st by (metis set_drop_subset)
  qed
  with False r show ?thesis by (simp add: js_sort_def binaryInsertionSort_def)
qed


lemma set_isUpdating_cache [simp]:
  "current (cache (set_isUpdating r b s)) = current (cache s)"
  "upcoming (cache (set_isUpdating r b s)) = upcoming (cache s)"
  "matchDetails (cache (set_isUpdating r b s)) = matchDetails (cache s)"
  "keys (set_isUpdating r b s) = keys s"
  "lastApiCallTime (set_isUpdating r b s) = lastApiCallTime s"
  by (cases r; simp)+

text \<open>The comparator of the Current updater is the difference of the time values.\<close>

lemma dateOf_valid:
  assumes "dateTimeGMT m \<noteq> Some None" "dateTimeGMT m = None \<longrightarrow> date m \<noteq> Some None"
  shows "dateOf m = Some (case dateTimeGMT m of Some (Some t) \<Rightarrow> t
                          | _ \<Rightarrow> (case date m of Some (Some t) \<Rightarrow> t | _ \<Rightarrow> 0))"
  using assms by (auto simp: dateOf_def split: option.splits)

lemma compareDates_keyed:
  assumes "\<forall>m\<in>S. dateTimeGMT m \<noteq> Some None \<and> (dateTimeGMT m = None \<longrightarrow> date m \<noteq> Some None)"
  shows "keyed compareDates
           (\<lambda>m. case dateTimeGMT m of Some (Some t) \<Rightarrow> t
                 | _ \<Rightarrow> (case date m of Some (Some t) \<Rightarrow> t | _ \<Rightarrow> 0)) S"
  unfolding keyed_def
proof (intro ballI)
  fix x y assume "x \<in> S" "y \<in> S"
  with assms dateOf_valid[of x] dateOf_valid[of y]
  show "sortCompare compareDates x y =
          (case dateTimeGMT y of Some (Some t) \<Rightarrow> t
           | _ \<Rightarrow> (case date y of Some (Some t) \<Rightarrow> t | _ \<Rightarrow> 0))
        - (case dateTimeGMT x of Some (Some t) \<Rightarrow> t
           | _ \<Rightarrow> (case date x of Some (Some t) \<Rightarrow> t | _ \<Rightarrow> 0))"
    by (simp add: sortCompare_def compareDates_def)
qed

text \<open>Two lists with the same elements, both in descending order of a key that tells the
  elements apart, are the same list.\<close>

lemma descending_unique:
  fixes k :: "'a \<Rightarrow> int"
  assumes m: "mset xs = mset ys"
    and sx: "sorted_wrt (\<lambda>t u. u \<le> t) (map k xs)" and sy: "sorted_wrt (\<lambda>t u. u \<le> t) (map k ys)"
    and inj: "inj_on k (set ys)"
  shows "xs = ys"
proof -
  have a: "sorted (rev (map k zs))" if "sorted_wrt (\<lambda>t u. u \<le> t) (map k zs)" for zs :: "'a list"
    using that by (simp add: sorted_wrt_rev)
  have "mset (rev (map k ys)) = mset (rev (map k xs))" using m by (metis mset_map mset_rev)
  from properties_for_sort[OF this a[OF sy]] have "sort (rev (map k xs)) = rev (map k ys)" .
  moreover have "sort (rev (map k xs)) = rev (map k xs)" using a[OF sx] by (rule sorted_sort_id)
  ultimately have e: "map k xs = map k ys" by simp
  have "set xs = set ys" using m by (metis set_mset_mset)
  with inj have "inj_on k (set xs \<union> set ys)" by simp
  from inj_on_map_eq_map[OF this] e show ?thesis by simp
qed

text \<open>
  Claim C4, as the code has it. When the matches request of the Current updater is
  answered with a success body whose data is the list \<open>allMatches\<close>, the updater
  stores and returns the first ten of a list \<open>L\<close> that holds exactly the matches with
  (started and not ended) or (started and ended and a non-empty score array). If every
  match of \<open>L\<close> has a valid date, \<open>L\<close> is in descending order of the time value of
  the date, which is read from \<open>dateTimeGMT\<close> if that is truthy, else from
  \<open>date\<close> if that is truthy, and is 0 otherwise. Started means that
  \<open>matchStarted\<close> is \<open>true\<close>, not ended that \<open>matchEnded\<close> is \<open>false\<close>.
\<close>

theorem current_refresh_stores_live_sorted:
  assumes "status b = ''success''" and "data b = Some allMatches"
    and "updateCurrentMatchesCache_resume (MatchesResponse now (HttpOk (Some b)))
           (RHttp k a n) s = (p, s')"
  shows "\<exists>L. current (cache s') = Some (take 10 L)
           \<and> p = Finished (Resolved (Some (take 10 L)))
           \<and> mset L = mset (filter (\<lambda>m. (matchStarted m = Some True \<and> matchEnded m = Some False)
                  \<or> (matchStarted m = Some True \<and> matchEnded m = Some True
                      \<and> (\<exists>sc. score m = Some sc \<and> sc \<noteq> []))) allMatches)
           \<and> ((\<forall>m\<in>set L. dateTimeGMT m \<noteq> Some None
                           \<and> (dateTimeGMT m = None \<longrightarrow> date m \<noteq> Some None)) \<longrightarrow>
                sorted_wrt (\<lambda>t u. u \<le> t)
                  (map (\<lambda>m. case dateTimeGMT m of Some (Some t) \<Rightarrow> t
                             | _ \<Rightarrow> (case date m of Some (Some t) \<Rightarrow> t | _ \<Rightarrow> 0)) L))"
proof -
  let ?L = "js_sort compareDates (liveMatches allMatches)"
  let ?tv = "\<lambda>m. case dateTimeGMT m of Some (Some t) \<Rightarrow> t
                  | _ \<Rightarrow> (case date m of Some (Some t) \<Rightarrow> t | _ \<Rightarrow> (0::int))"
  have live: "liveMatches allMatches =
      filter (\<lambda>m. (matchStarted m = Some True \<and> matchEnded m = Some False)
                  \<or> (matchStarted m = Some True \<and> matchEnded m = Some True
                      \<and> (\<exists>sc. score m = Some sc \<and> sc \<noteq> []))) allMatches"
    unfolding liveMatches_def isLive_def isCompletedWithScore_def hasScore_def
    by (rule filter_cong) (auto split: option.splits)
  from assms have "s' = set_isUpdating Current False (store Current (sortedLive allMatches) now s)"
    and p: "p = Finished (Resolved (Some (sortedLive allMatches)))"
    by (auto simp: updateCurrentMatchesCache_resume_def refresh_resume_def refresh_process_def)
  then have c: "current (cache s') = Some (take 10 ?L)"
    by (simp add: sortedLive_def)
  have m: "mset ?L = mset (liveMatches allMatches)" by (rule mset_js_sort)
  have srt: "(\<forall>m\<in>set ?L. dateTimeGMT m \<noteq> Some None
                           \<and> (dateTimeGMT m = None \<longrightarrow> date m \<noteq> Some None)) \<longrightarrow>
             sorted_wrt (\<lambda>t u. u \<le> t) (map ?tv ?L)"
  proof
    assume v: "\<forall>m\<in>set ?L. dateTimeGMT m \<noteq> Some None
                           \<and> (dateTimeGMT m = None \<longrightarrow> date m \<noteq> Some None)"
    have "set ?L = set (liveMatches allMatches)" using m by (metis set_mset_mset)
    with v have "keyed compareDates ?tv (set (liveMatches allMatches))"
      by (intro compareDates_keyed) simp
    from js_sort_sorted[OF this] show "sorted_wrt (\<lambda>t u. u \<le> t) (map ?tv ?L)"
      by (simp add: sorted_wrt_map)
  qed
  from c p m srt show ?thesis unfolding live[symmetric] sortedLive_def
    by (intro exI[of _ ?L]) simp
qed

text \<open>
  The instance of the claim: of the raw matches \<open>{started: true, ended: false}\<close> and
  \<open>{started: false}\<close>, exactly the first is stored as current; here with two more
  kept matches of later dates, one dated by its \<open>date\<close> field and one ended with a
  score, and one ended without a score. The three kept matches are stored latest first.
\<close>

theorem current_refresh_stores_live_sorted_witness:
  "current (cache (snd (updateCurrentMatchesCache_resume
      (MatchesResponse 5000 (HttpOk (Some (success
         [raw_match (Some True) (Some False) (Some (Some 100)) ''m1'',
          raw_match (Some False) None (Some (Some 500)) ''m2'',
          (raw_match (Some True) (Some False) None ''m3'')\<lparr>date := Some (Some 300)\<rparr>,
          (raw_match (Some True) (Some True) (Some (Some 200)) ''m4'')\<lparr>score := Some sample_score\<rparr>,
          raw_match (Some True) (Some True) (Some (Some 400)) ''m5'']))))
      (RHttp ''A'' 0 1) (initial_state [''A'']))))
   = Some [(raw_match (Some True) (Some False) None ''m3'')\<lparr>date := Some (Some 300)\<rparr>,
           (raw_match (Some True) (Some True) (Some (Some 200)) ''m4'')\<lparr>score := Some sample_score\<rparr>,
           raw_match (Some True) (Some False) (Some (Some 100)) ''m1'']"
proof -
  let ?m1 = "raw_match (Some True) (Some False) (Some (Some 100)) ''m1''"
  let ?m2 = "raw_match (Some False) None (Some (Some 500)) ''m2''"
  let ?m3 = "(raw_match (Some True) (Some False) None ''m3'')\<lparr>date := Some (Some 300)\<rparr>"
  let ?m4 = "(raw_match (Some True) (Some True) (Some (Some 200)) ''m4'')\<lparr>score := Some sample_score\<rparr>"
  let ?m5 = "raw_match (Some True) (Some True) (Some (Some 400)) ''m5''"
  let ?tv = "\<lambda>m. case dateTimeGMT m of Some (Some t) \<Rightarrow> t
                  | _ \<Rightarrow> (case date m of Some (Some t) \<Rightarrow> t | _ \<Rightarrow> (0::int))"
  let ?b = "success [?m1, ?m2, ?m3, ?m4, ?m5]"
  obtain p s' where r: "updateCurrentMatchesCache_resume (MatchesResponse 5000 (HttpOk (Some ?b)))
      (RHttp ''A'' 0 1) (initial_state [''A'']) = (p, s')"
    by (cases "updateCurrentMatchesCache_resume (MatchesResponse 5000 (HttpOk (Some ?b)))
      (RHttp ''A'' 0 1) (initial_state [''A''])")
  have st: "status ?b = ''success''" and dt: "data ?b = Some [?m1, ?m2, ?m3, ?m4, ?m5]"
    by (simp_all add: success_def)
  have kept: "filter (\<lambda>m. (matchStarted m = Some True \<and> matchEnded m = Some False)
                  \<or> (matchStarted m = Some True \<and> matchEnded m = Some True
                      \<and> (\<exists>sc. score m = Some sc \<and> sc \<noteq> []))) [?m1, ?m2, ?m3, ?m4, ?m5]
              = [?m1, ?m3, ?m4]"
    by (simp add: raw_match_def sample_score_def)
  from current_refresh_stores_live_sorted[OF st dt r]
  obtain L where L: "current (cache s') = Some (take 10 L)"
    and ms: "mset L = mset [?m1, ?m3, ?m4]"
    and srt: "(\<forall>m\<in>set L. dateTimeGMT m \<noteq> Some None
                           \<and> (dateTimeGMT m = None \<longrightarrow> date m \<noteq> Some None)) \<longrightarrow>
              sorted_wrt (\<lambda>t u. u \<le> t) (map ?tv L)"
    unfolding kept by blast
  have "set L = set [?m1, ?m3, ?m4]" using ms by (metis set_mset_mset)
  then have "\<forall>m\<in>set L. dateTimeGMT m \<noteq> Some None
                           \<and> (dateTimeGMT m = None \<longrightarrow> date m \<noteq> Some None)"
    by (simp add: raw_match_def)
  with srt have sl: "sorted_wrt (\<lambda>t u. u \<le> t) (map ?tv L)" by blast
  have s3: "sorted_wrt (\<lambda>t u. u \<le> t) (map ?tv [?m3, ?m4, ?m1])"
    by (simp add: raw_match_def)
  have inj: "inj_on ?tv (set [?m3, ?m4, ?m1])"
    by (simp add: raw_match_def)
  have "mset L = mset [?m3, ?m4, ?m1]" using ms by simp
  from descending_unique[OF this sl s3 inj] have "L = [?m3, ?m4, ?m1]" .
  with L r show ?thesis by simp
qed

text \<open>
  Claim C4 as stated fails: it has no condition on the dates. Three live matches arrive,
  dated 100, with a \<open>dateTimeGMT\<close> that is no date, and 300. Compared with the
  second, either of the others gives \<open>NaN\<close>, which counts as 0; the engine takes the
  three for a run in order and moves nothing, and the list is stored with the match of
  time 100 before the match of time 300.
\<close>

theorem invalid_date_leaves_current_unsorted_counterexample:
  "current (cache (snd (updateCurrentMatchesCache_resume
      (MatchesResponse 5000 (HttpOk (Some (success
         [raw_match (Some True) (Some False) (Some (Some 100)) ''m1'',
          raw_match (Some True) (Some False) (Some None) ''m2'',
          raw_match (Some True) (Some False) (Some (Some 300)) ''m3'']))))
      (RHttp ''A'' 0 1) (initial_state [''A'']))))
   = Some [raw_match (Some True) (Some False) (Some (Some 100)) ''m1'',
           raw_match (Some True) (Some False) (Some None) ''m2'',
           raw_match (Some True) (Some False) (Some (Some 300)) ''m3'']"
  by (simp add: updateCurrentMatchesCache_resume_def refresh_resume_def refresh_process_def
      success_def sortedLive_def liveMatches_def isLive_def raw_match_def js_sort_def
      countAndMakeRun_def sortCompare_def compareDates_def dateOf_def binaryInsertionSort_def
      Let_def)

text \<open>
  Claim C5. When the matches request of the Upcoming updater is answered with a success
  body whose data is the list \<open>allMatches\<close>, the updater stores and returns the first
  twenty of the matches whose \<open>matchStarted\<close> is \<open>false\<close>, in the order of the
  list; if no match of the list has started, these are its first twenty elements.
\<close>

theorem upcoming_refresh_stores_not_started:
  assumes "status b = ''success''" and "data b = Some allMatches"
    and "updateUpcomingMatchesCache_resume (MatchesResponse now (HttpOk (Some b)))
           (RHttp k a n) s = (p, s')"
  shows "upcoming (cache s') = Some (take 20 (filter (\<lambda>m. matchStarted m = Some False) allMatches))
       \<and> p = Finished (Resolved (Some (take 20 (filter (\<lambda>m. matchStarted m = Some False) allMatches))))
       \<and> ((\<forall>m\<in>set allMatches. matchStarted m = Some False) \<longrightarrow>
            upcoming (cache s') = Some (take 20 allMatches))"
proof -
  from assms have "s' = set_isUpdating Upcoming False (store Upcoming (upcomingMatches allMatches) now s)"
    and p: "p = Finished (Resolved (Some (upcomingMatches allMatches)))"
    by (auto simp: updateUpcomingMatchesCache_resume_def refresh_resume_def refresh_process_def)
  then have c: "upcoming (cache s') = Some (take 20 (filter (\<lambda>m. matchStarted m = Some False) allMatches))"
    by (simp add: upcomingMatches_def)
  moreover have "(\<forall>m\<in>set allMatches. matchStarted m = Some False) \<longrightarrow>
     filter (\<lambda>m. matchStarted m = Some False) allMatches = allMatches"
    by (simp add: filter_id_conv)
  ultimately show ?thesis using p by (auto simp: upcomingMatches_def)
qed


text \<open>The instance of the claim: of 25 matches that have not started, the first 20 are stored.\<close>

theorem upcoming_refresh_stores_not_started_witness:
  "upcoming (cache (snd (updateUpcomingMatchesCache_resume
      (MatchesResponse 5000 (HttpOk (Some (success (map numbered
         [1, 2, 3, 4, 5, 6, 7, 8, 9, 10, 11, 12, 13, 14, 15, 16, 17, 18, 19, 20, 21, 22, 23, 24, 25])))))
      (RHttp ''A'' 0 1) (initial_state [''A'']))))
   = Some (map numbered [1, 2, 3, 4, 5, 6, 7, 8, 9, 10, 11, 12, 13, 14, 15, 16, 17, 18, 19, 20])"
proof -
  let ?all = "map numbered
         [1, 2, 3, 4, 5, 6, 7, 8, 9, 10, 11, 12, 13, 14, 15, 16, 17, 18, 19, 20, 21, 22, 23, 24, 25]"
  let ?b = "success ?all"
  obtain p s' where r: "updateUpcomingMatchesCache_resume (MatchesResponse 5000 (HttpOk (Some ?b)))
      (RHttp ''A'' 0 1) (initial_state [''A'']) = (p, s')"
    by (cases "updateUpcomingMatchesCache_resume (MatchesResponse 5000 (HttpOk (Some ?b)))
      (RHttp ''A'' 0 1) (initial_state [''A''])")
  have st: "status ?b = ''success''" and dt: "data ?b = Some ?all"
    by (simp_all add: success_def)
  have ns: "\<forall>m\<in>set ?all. matchStarted m = Some False"
    by (simp add: numbered_def)
  from upcoming_refresh_stores_not_started[OF st dt r] ns
  have "upcoming (cache s') = Some (take 20 ?all)" by blast
  with r show ?thesis by simp
qed

section \<open>The busy flags\<close>

lemma isUpdating_set [simp]:
  "isUpdating r' (cache (set_isUpdating r b s)) = (if r' = r then b else isUpdating r' (cache s))"
  by (cases r; cases r'; simp)

lemma isUpdating_store [simp]:
  "isUpdating r' (cache (store r ms now s)) = isUpdating r' (cache s)"
  by (cases r; cases r'; simp)

lemma set_isUpdating_keys [simp]:
  "set_isUpdating r b (s\<lparr>keys := ks\<rparr>) = (set_isUpdating r b s)\<lparr>keys := ks\<rparr>"
  by (cases r; simp)

lemma flags_after_keys [simp]: "flags_after r p (s\<lparr>keys := ks\<rparr>) s' = flags_after r p s s'"
  by (simp add: flags_after_def)

lemma flags_after_same: "flags_after r (Suspended pc) s s"
  by (simp add: flags_after_def)

lemma refresh_return_cached_flags:
  "refresh_return_cached r s = (p, s') \<Longrightarrow> flags_after r p s s'"
  by (auto simp: refresh_return_cached_def flags_after_def)

lemma refresh_catch_flags:
  "refresh_catch r e s = (p, s') \<Longrightarrow> flags_after r p s s'"
  by (auto simp: refresh_catch_def refresh_return_cached_def flags_after_def split: if_splits)

lemma refresh_process_flags:
  "refresh_process r k now body s = (p, s') \<Longrightarrow> flags_after r p s s'"
  by (auto simp: refresh_process_def refresh_return_cached_def flags_after_def
      split: option.splits if_splits)

lemma refresh_loop_flags:
  "refresh_loop r k a n le s = (p, s') \<Longrightarrow> flags_after r p s s'"
  by (auto simp: refresh_loop_def flags_after_same dest: refresh_catch_flags split: if_splits)

lemma refresh_resume_flags:
  assumes "refresh_resume r ev pc s = (p, s')"
  shows "flags_after r p s s'"
proof (cases pc)
  case (RThrottle deadline)
  with assms show ?thesis
    by (auto simp: refresh_resume_def flags_after_def split: event.splits if_splits)
next
  case RAfterThrottle
  show ?thesis
  proof (cases ev)
    case (Tick now)
    obtain res ks where g: "getApiKey now (keys s) = (res, ks)" by (cases "getApiKey now (keys s)")
    show ?thesis
    proof (cases res)
      case (Inl e)
      with assms RAfterThrottle Tick g have "refresh_catch r e (s\<lparr>keys := ks\<rparr>) = (p, s')"
        by (simp add: refresh_resume_def)
      from refresh_catch_flags[OF this] show ?thesis by simp
    next
      case (Inr k)
      show ?thesis
      proof (cases "key_truthy k")
        case True
        with assms RAfterThrottle Tick g Inr
        have "refresh_loop r (or_empty k) 0 (length (apiKeys ks)) None (s\<lparr>keys := ks\<rparr>) = (p, s')"
          by (simp add: refresh_resume_def)
        from refresh_loop_flags[OF this] show ?thesis by simp
      next
        case False
        with assms RAfterThrottle Tick g Inr
        have "refresh_catch r (Error ''CRICKET_API_KEY is not configured'') (s\<lparr>keys := ks\<rparr>) = (p, s')"
          by (simp add: refresh_resume_def)
        from refresh_catch_flags[OF this] show ?thesis by simp
      qed
    qed
  qed (use assms RAfterThrottle in \<open>auto simp: refresh_resume_def flags_after_def\<close>)
next
  case (RHttp k a n)
  show ?thesis
  proof (cases ev)
    case (MatchesResponse now res)
    show ?thesis
    proof (cases res)
      case (HttpOk body)
      with assms RHttp MatchesResponse have "refresh_process r k now body s = (p, s')"
        by (simp add: refresh_resume_def)
      from refresh_process_flags[OF this] show ?thesis by simp
    next
      case (HttpErr error)
      show ?thesis
      proof (cases "isRateLimited error")
        case False
        with assms RHttp MatchesResponse HttpErr have "refresh_catch r error s = (p, s')"
          by (simp add: refresh_resume_def)
        from refresh_catch_flags[OF this] show ?thesis by simp
      next
        case True
        obtain res' ks where g: "getApiKey now (markKeyAsRateLimited k now (keys s)) = (res', ks)"
          by (cases "getApiKey now (markKeyAsRateLimited k now (keys s))")
        show ?thesis
        proof (cases res')
          case (Inl e)
          with assms RHttp MatchesResponse HttpErr True g
          have "refresh_catch r e (s\<lparr>keys := ks\<rparr>) = (p, s')"
            by (simp add: refresh_resume_def)
          from refresh_catch_flags[OF this] show ?thesis by simp
        next
          case (Inr k')
          show ?thesis
          proof (cases "key_truthy k'")
            case kt: True
            with assms RHttp MatchesResponse HttpErr True g Inr show ?thesis
              by (auto simp: refresh_resume_def flags_after_def)
          next
            case kf: False
            with assms RHttp MatchesResponse HttpErr True g Inr
            have "refresh_catch r (Error ''All API keys are rate limited'') (s\<lparr>keys := ks\<rparr>) = (p, s')"
              by (simp add: refresh_resume_def)
            from refresh_catch_flags[OF this] show ?thesis by simp
          qed
        qed
      qed
    qed
  qed (use assms RHttp in \<open>auto simp: refresh_resume_def flags_after_def\<close>)
next
  case (RDelay deadline k a n le)
  show ?thesis
  proof (cases ev)
    case (Timer now)
    show ?thesis
    proof (cases "now < deadline")
      case True
      with assms RDelay Timer show ?thesis by (auto simp: refresh_resume_def flags_after_def)
    next
      case False
      with assms RDelay Timer have "refresh_loop r k (a + 1) n (Some le) s = (p, s')"
        by (simp add: refresh_resume_def)
      from refresh_loop_flags[OF this] show ?thesis by simp
    qed
  qed (use assms RDelay in \<open>auto simp: refresh_resume_def flags_after_def\<close>)
qed

lemma refresh_start_flags:
  assumes "refresh_start r now s = (p, s')"
  shows "if isUpdating r (cache s) then p = Finished (Resolved None) \<and> s' = s
         else (\<exists>pc. p = Suspended pc) \<and>
              (\<forall>r'. isUpdating r' (cache s') = (if r' = r then True else isUpdating r' (cache s)))"
  using assms
  by (auto simp: refresh_start_def Let_def throttleApiCall_enter_def split: if_splits prod.splits option.splits)


section \<open>How a call of getMatchDetails ends\<close>

lemma md_outcome_keys [simp]:
  "md_outcome mid now p (s\<lparr>keys := ks\<rparr>) s' = md_outcome mid now p s s'"
  by (cases "(mid, now, p, s, s')" rule: md_outcome.cases) simp_all

lemma md_catch_outcome: "md_catch mid e s = (p, s') \<Longrightarrow> md_outcome mid now p s s'"
  by (auto simp: md_catch_def split: option.splits)

lemma md_store_outcome: "md_store mid d now s = (p, s') \<Longrightarrow> md_outcome mid now p s s'"
  by (auto simp: md_store_def)

lemma md_finalize_outcome: "md_finalize ctx now s = (p, s') \<Longrightarrow> md_outcome (matchId ctx) now p s s'"
  by (auto simp: md_finalize_def md_store_outcome md_catch_outcome split: if_splits)

lemma md_throttle_outcome: "md_throttle stage ctx now s = (p, s') \<Longrightarrow> md_outcome (matchId ctx) now p s s'"
  by (auto simp: md_throttle_def throttleApiCall_enter_def Let_def split: if_splits)

lemma md_next_outcome: "md_next stage ctx now s = (p, s') \<Longrightarrow> md_outcome (matchId ctx) now p s s'"
  by (cases stage) (auto simp: md_throttle_outcome md_finalize_outcome split: if_splits)

lemma md_fail_outcome: "md_fail call e now s = (p, s') \<Longrightarrow> md_outcome (call_matchId call) now p s s'"
  by (cases call) (auto simp: md_catch_outcome md_next_outcome)

lemma makeApiCall_loop_outcome:
  "makeApiCall_loop call k a n le now s = (p, s') \<Longrightarrow> md_outcome (call_matchId call) now p s s'"
  by (auto simp: makeApiCall_loop_def md_fail_outcome split: if_splits)

lemma makeApiCall_error_outcome:
  assumes "makeApiCall_error call k a n e now s = (p, s')"
  shows "md_outcome (call_matchId call) now p s s'"
proof (cases "isRateLimited e")
  case False
  with assms show ?thesis by (simp add: makeApiCall_error_def md_fail_outcome)
next
  case True
  obtain res ks where g: "getApiKey now (markKeyAsRateLimited k now (keys s)) = (res, ks)"
    by (cases "getApiKey now (markKeyAsRateLimited k now (keys s))")
  show ?thesis
  proof (cases res)
    case (Inl e')
    with assms True g have "md_fail call e' now (s\<lparr>keys := ks\<rparr>) = (p, s')"
      by (simp add: makeApiCall_error_def)
    from md_fail_outcome[OF this] show ?thesis by simp
  next
    case (Inr k')
    show ?thesis
    proof (cases "key_truthy k'")
      case True
      with assms \<open>isRateLimited e\<close> g Inr show ?thesis
        by (auto simp: makeApiCall_error_def)
    next
      case False
      with assms True g Inr
      have "md_fail call (Error ''All API keys are rate limited'') now (s\<lparr>keys := ks\<rparr>) = (p, s')"
        by (simp add: makeApiCall_error_def)
      from md_fail_outcome[OF this] show ?thesis by simp
    qed
  qed
qed

lemma md_info_outcome: "md_info mid k body now s = (p, s') \<Longrightarrow> md_outcome mid now p s s'"
  by (auto simp: md_info_def Let_def md_catch_outcome md_store_outcome
      dest!: md_throttle_outcome split: info_body.splits option.splits if_splits)

lemma md_squad_outcome: "md_squad ctx body now s = (p, s') \<Longrightarrow> md_outcome (matchId ctx) now p s s'"
  by (auto simp: md_squad_def simp del: md_next.simps dest!: md_next_outcome split: option.splits)

lemma md_scorecard_outcome:
  "md_scorecard stage ctx body now s = (p, s') \<Longrightarrow> md_outcome (matchId ctx) now p s s'"
  by (auto simp: md_scorecard_def simp del: md_next.simps dest!: md_next_outcome split: option.splits)

lemma md_response_outcome:
  assumes "md_response call k a n ev (MHttp call k a n) s = (p, s')"
  shows "md_outcome (call_matchId call) (event_time ev) p s s'"
proof (cases call)
  case (InfoCall mid k0)
  with assms show ?thesis
    by (cases ev) (auto simp: md_response_def md_info_outcome
        dest: makeApiCall_error_outcome split: http_result.splits)
next
  case (StageCall stage ctx)
  with assms show ?thesis
    by (cases stage; cases ev)
       (auto simp: md_response_def md_squad_outcome md_scorecard_outcome
        dest: makeApiCall_error_outcome split: http_result.splits)
qed

lemma getMatchDetails_resume_outcome:
  assumes "getMatchDetails_resume ev pc s = (p, s')"
  shows "md_outcome (pc_matchId pc) (event_time ev) p s s'"
proof (cases pc)
  case (MStartThrottle deadline mid)
  with assms show ?thesis
    by (cases ev) (auto simp: getMatchDetails_resume_def split: if_splits)
next
  case (MStartTick mid)
  show ?thesis
  proof (cases ev)
    case (Tick now)
    obtain res ks where g: "getApiKey now (keys s) = (res, ks)" by (cases "getApiKey now (keys s)")
    show ?thesis
    proof (cases res)
      case (Inl e)
      with assms MStartTick Tick g have "md_catch mid e (s\<lparr>keys := ks\<rparr>) = (p, s')"
        by (simp add: getMatchDetails_resume_def)
      from md_catch_outcome[OF this, of now] MStartTick Tick show ?thesis by simp
    next
      case (Inr k)
      show ?thesis
      proof (cases "key_truthy k")
        case True
        with assms MStartTick Tick g Inr
        have "makeApiCall_loop (InfoCall mid (or_empty k)) (or_empty k) 0 (length (apiKeys ks)) None now
                (s\<lparr>keys := ks\<rparr>) = (p, s')"
          by (simp add: getMatchDetails_resume_def)
        from makeApiCall_loop_outcome[OF this] MStartTick Tick show ?thesis by simp
      next
        case False
        with assms MStartTick Tick g Inr
        have "md_catch mid (Error ''CRICKET_API_KEY is not configured'') (s\<lparr>keys := ks\<rparr>) = (p, s')"
          by (simp add: getMatchDetails_resume_def)
        from md_catch_outcome[OF this, of now] MStartTick Tick show ?thesis by simp
      qed
    qed
  qed (use assms MStartTick in \<open>auto simp: getMatchDetails_resume_def\<close>)
next
  case (MThrottle deadline stage ctx)
  with assms show ?thesis
    by (cases ev) (auto simp: getMatchDetails_resume_def split: if_splits)
next
  case (MTick stage ctx)
  with assms show ?thesis
    by (cases ev) (auto simp: getMatchDetails_resume_def dest: makeApiCall_loop_outcome)
next
  case (MHttp call k a n)
  with assms have "md_response call k a n ev (MHttp call k a n) s = (p, s')"
    by (simp add: getMatchDetails_resume_def)
  from md_response_outcome[OF this] MHttp show ?thesis by simp
next
  case (MDelay deadline call k a n le)
  with assms show ?thesis
    by (cases ev) (auto simp: getMatchDetails_resume_def dest: makeApiCall_loop_outcome split: if_splits)
qed

lemma getMatchDetails_start_outcome:
  "getMatchDetails_start mid now s = (p, s') \<Longrightarrow> md_outcome mid now p s s'"
  by (auto simp: getMatchDetails_start_def throttleApiCall_enter_def Let_def split: option.splits if_splits)


section \<open>One refresh per region\<close>

lemma md_outcome_flags:
  "md_outcome mid now p s s' \<Longrightarrow> isUpdating r (cache s') = isUpdating r (cache s)"
  by (cases "(mid, now, p, s, s')" rule: md_outcome.cases; cases r; auto)

lemma getMatches_start_flags:
  assumes "getMatches_start r now s = (p, s')"
  shows "if is_finished p then s' = s
         else (\<not> isUpdating r (cache s)) \<and>
              (\<forall>r'. isUpdating r' (cache s') = (if r' = r then True else isUpdating r' (cache s)))"
proof -
  obtain q t where st: "refresh_start r now s = (q, t)" by (cases "refresh_start r now s")
  have served: "p = Finished (Resolved l) \<and> s' = s" if "cached r (cache s) = Some l" "l \<noteq> []" for l
    using assms that by (simp add: getMatches_start_def)
  have other: "(p, s') = (case q of Suspended pc \<Rightarrow> (Suspended pc, t) | Finished res \<Rightarrow> (Finished (Resolved []), t))"
    if "cached r (cache s) = None \<or> cached r (cache s) = Some []"
    using assms that st by (auto simp: getMatches_start_def split: progress.splits)
  show ?thesis
  proof (cases "\<exists>l. cached r (cache s) = Some l \<and> l \<noteq> []")
    case True
    with served show ?thesis by auto
  next
    case False
    then have c: "cached r (cache s) = None \<or> cached r (cache s) = Some []"
      by (cases "cached r (cache s)") auto
    show ?thesis
    proof (cases "isUpdating r (cache s)")
      case True
      with refresh_start_flags[OF st] have "q = Finished (Resolved None)" "t = s" by simp_all
      with other[OF c] show ?thesis by simp
    next
      case nb: False
      with refresh_start_flags[OF st] obtain pc where q: "q = Suspended pc"
        and fl: "\<forall>r'. isUpdating r' (cache t) = (if r' = r then True else isUpdating r' (cache s))"
        by auto
      from other[OF c] q have "p = Suspended pc" "s' = t" by simp_all
      with fl nb show ?thesis by simp
    qed
  qed
qed

lemma getMatches_resume_flags:
  assumes "getMatches_resume r ev pc s = (p, s')"
  shows "flags_after r p s s'"
proof -
  obtain q t where st: "refresh_resume r ev pc s = (q, t)" by (cases "refresh_resume r ev pc s")
  from refresh_resume_flags[OF st] assms st show ?thesis
    by (cases q) (auto simp: getMatches_resume_def flags_after_def)
qed

lemma busy_inv_iff:
  "busy_inv (s, ts) = (\<forall>r. refreshing r ts = (if isUpdating r (cache s) then 1 else 0))"
proof -
  have "(\<forall>r. P r) = (P Current \<and> P Upcoming)" for P
  proof
    assume "\<forall>r. P r" then show "P Current \<and> P Upcoming" by simp
  next
    assume a: "P Current \<and> P Upcoming"
    show "\<forall>r. P r"
    proof
      fix r show "P r" using a by (cases r) simp_all
    qed
  qed
  then show ?thesis by (simp add: busy_inv_def)
qed

lemma refreshing_append [simp]: "refreshing r (ts @ us) = refreshing r ts + refreshing r us"
  by (simp add: refreshing_def)

lemma refreshing_single [simp]: "refreshing r [t] = (if refreshes r t then 1 else 0)"
  by (simp add: refreshing_def)

lemma refreshing_Cons [simp]: "refreshing r (t # ts) = (if refreshes r t then 1 else 0) + refreshing r ts"
  by (simp add: refreshing_def)

lemma refreshing_Nil [simp]: "refreshing r [] = 0"
  by (simp add: refreshing_def)

lemma refreshing_split:
  assumes "i < length ts"
  shows "refreshing r ts = refreshing r (take i ts) + (if refreshes r (ts ! i) then 1 else 0)
           + refreshing r (drop (Suc i) ts)"
proof -
  have "ts = take i ts @ ts ! i # drop (Suc i) ts" using assms by (rule id_take_nth_drop)
  then have "refreshing r ts = refreshing r (take i ts @ ts ! i # drop (Suc i) ts)" by simp
  then show ?thesis by simp
qed

lemma refreshing_update:
  assumes "i < length ts"
  shows "refreshing r (ts[i := t]) = refreshing r (take i ts) + (if refreshes r t then 1 else 0)
           + refreshing r (drop (Suc i) ts)"
  using assms by (simp add: upd_conv_take_nth_drop)

text \<open>A task of a region is resumed: the invariant is kept.\<close>

lemma busy_inv_resumed:
  assumes inv: "busy_inv (s, ts)" and i: "i < length ts"
    and own: "refreshes r (ts ! i)" and mk: "\<And>pc r'. refreshes r' (mk pc) = (r' = r)"
    and fl: "flags_after r p s s'"
  shows "busy_inv (resumed mk i ts (p, s'))"
proof -
  have at_i: "refreshes r' (ts ! i) = (r' = r)" for r'
    using own by (cases "ts ! i") auto
  from inv have cnt: "refreshing r' ts = (if isUpdating r' (cache s) then 1 else 0)" for r'
    by (simp add: busy_inv_iff)
  show ?thesis
  proof (cases p)
    case (Suspended pc)
    have "refreshing r' (ts[i := mk pc]) = refreshing r' ts" for r'
      using mk[of r' pc] at_i[of r'] i
      by (simp add: refreshing_update refreshing_split[OF i, of r'])
    moreover from fl Suspended have "isUpdating r' (cache s') = isUpdating r' (cache s)" for r'
      by (simp add: flags_after_def)
    ultimately show ?thesis using Suspended cnt
      by (simp add: resumed_def busy_inv_iff)
  next
    case (Finished out)
    have rem: "refreshing r' (take i ts @ drop (Suc i) ts) + (if r' = r then 1 else 0) = refreshing r' ts" for r'
      using at_i[of r'] by (simp add: refreshing_split[OF i, of r'])
    from fl Finished have fl': "isUpdating r' (cache s') = (if r' = r then False else isUpdating r' (cache s))" for r'
      by (simp add: flags_after_def)
    have "refreshing r' (take i ts @ drop (Suc i) ts) = (if isUpdating r' (cache s') then 1 else 0)" for r'
      using rem[of r'] cnt[of r'] fl'[of r'] by (auto split: if_splits)
    then show ?thesis using Finished by (simp add: resumed_def busy_inv_iff)
  qed
qed


lemma busy_inv_resumed_details:
  assumes inv: "busy_inv (s, ts)" and i: "i < length ts"
    and own: "ts ! i = Details pc"
    and fl: "\<And>r. isUpdating r (cache s') = isUpdating r (cache s)"
  shows "busy_inv (resumed Details i ts (p, s'))"
proof -
  from inv have cnt: "refreshing r' ts = (if isUpdating r' (cache s) then 1 else 0)" for r'
    by (simp add: busy_inv_iff)
  have a: "refreshing r' (ts[i := Details pc']) = refreshing r' ts" for r' pc'
    using own i by (simp add: refreshing_update refreshing_split[OF i, of r'])
  have b: "refreshing r' (take i ts @ drop (Suc i) ts) = refreshing r' ts" for r'
    using own by (simp add: refreshing_split[OF i, of r'])
  show ?thesis using a b cnt fl
    by (cases p) (simp_all add: resumed_def busy_inv_iff)
qed

lemma busy_inv_started:
  assumes inv: "busy_inv (s, ts)" and mk: "\<And>pc r'. refreshes r' (mk pc) = (r' = r)"
    and st: "if is_finished p then s' = s
         else (\<not> isUpdating r (cache s)) \<and>
              (\<forall>r'. isUpdating r' (cache s') = (if r' = r then True else isUpdating r' (cache s)))"
  shows "busy_inv (started mk ts (p, s'))"
proof -
  from inv have cnt: "refreshing r' ts = (if isUpdating r' (cache s) then 1 else 0)" for r'
    by (simp add: busy_inv_iff)
  show ?thesis
  proof (cases p)
    case (Finished out)
    with st inv show ?thesis by (simp add: started_def)
  next
    case (Suspended pc)
    with st have f: "\<not> isUpdating r (cache s)"
      "\<And>r'. isUpdating r' (cache s') = (if r' = r then True else isUpdating r' (cache s))"
      by auto
    have "refreshing r' (ts @ [mk pc]) = (if isUpdating r' (cache s') then 1 else 0)" for r'
      using cnt[of r'] f mk[of r' pc] by auto
    then show ?thesis using Suspended by (simp add: started_def busy_inv_iff)
  qed
qed

lemma busy_inv_started_details:
  assumes inv: "busy_inv (s, ts)"
    and fl: "\<And>r. isUpdating r (cache s') = isUpdating r (cache s)"
  shows "busy_inv (started Details ts (p, s'))"
  using inv fl by (cases p) (simp_all add: started_def busy_inv_iff)

lemma refresh_start_finished:
  assumes "refresh_start r now s = (p, s')"
  shows "if is_finished p then s' = s
         else (\<not> isUpdating r (cache s)) \<and>
              (\<forall>r'. isUpdating r' (cache s') = (if r' = r then True else isUpdating r' (cache s)))"
  using refresh_start_flags[OF assms] by (auto split: if_splits)

lemma clearCache_flags [simp]: "isUpdating r (cache (clearCache s)) = isUpdating r (cache s)"
  by (cases r) (simp_all add: clearCache_def)

lemma refreshes_mk:
  "refreshes r' (Refresh r pc) = (r' = r)" "refreshes r' (Query r pc) = (r' = r)"
  "refreshes r' (Manual r pc) = (r' = r)"
  by auto

lemma busy_inv_exit: "busy_inv (exit_process s)"
  by (simp add: exit_process_def busy_inv_def empty_cache_def)

text \<open>A task the timer has started is resumed: the invariant is kept.\<close>

lemma busy_inv_timer_resumed:
  assumes inv: "busy_inv (s, ts)" and i: "i < length ts"
    and own: "refreshes r (ts ! i)"
    and fl: "flags_after r p s s'"
  shows "busy_inv (timer_resumed r i ts (p, s'))"
proof (cases "\<exists>e. p = Finished (Rejected e)")
  case True
  then show ?thesis by (auto simp: timer_resumed_def busy_inv_exit)
next
  case False
  then have "timer_resumed r i ts (p, s') = resumed (Refresh r) i ts (p, s')"
    by (auto simp: timer_resumed_def split: progress.splits settled.splits)
  with busy_inv_resumed[OF inv i own refreshes_mk(1) fl] show ?thesis by simp
qed

lemma busy_inv_step:
  assumes "busy_inv sys"
  shows "busy_inv (step a sys)"
proof -
  obtain s ts where sys: "sys = (s, ts)" by (cases sys)
  with assms have inv: "busy_inv (s, ts)" by simp
  show ?thesis
  proof (cases "exited s")
    case True
    with inv sys show ?thesis by (simp add: step_def)
  next
    case alive: False
    show ?thesis
    proof (cases a)
      case (TriggerRefresh r now)
      obtain p s' where st: "refresh_start r now s = (p, s')" by (cases "refresh_start r now s")
      from busy_inv_started[OF inv refreshes_mk(1) refresh_start_finished[OF st]]
      show ?thesis using sys TriggerRefresh st alive by (simp add: step_def)
    next
      case (CallRefreshCache r now)
      obtain p s' where st: "refresh_start r now s = (p, s')" by (cases "refresh_start r now s")
      from busy_inv_started[OF inv refreshes_mk(3) refresh_start_finished[OF st]]
      show ?thesis using sys CallRefreshCache st alive by (simp add: step_def)
    next
      case (CallGetMatches r now)
      obtain p s' where st: "getMatches_start r now s = (p, s')" by (cases "getMatches_start r now s")
      from busy_inv_started[OF inv refreshes_mk(2) getMatches_start_flags[OF st]]
      show ?thesis using sys CallGetMatches st alive by (simp add: step_def)
    next
      case (CallGetMatchDetails mid now)
      obtain p s' where st: "getMatchDetails_start mid now s = (p, s')"
        by (cases "getMatchDetails_start mid now s")
      from getMatchDetails_start_outcome[OF st]
      have "isUpdating r (cache s') = isUpdating r (cache s)" for r by (rule md_outcome_flags)
      from busy_inv_started_details[OF inv this, of p]
      show ?thesis using sys CallGetMatchDetails st alive by (simp add: step_def)
    next
      case CallClearCache
      with inv sys alive show ?thesis by (simp add: step_def busy_inv_iff)
    next
      case (Deliver i ev)
      show ?thesis
      proof (cases "i < length ts")
        case False
        with inv sys Deliver alive show ?thesis by (simp add: step_def)
      next
        case True
        show ?thesis
        proof (cases "ts ! i")
          case (Refresh r pc)
          obtain p s' where st: "refresh_resume r ev pc s = (p, s')" by (cases "refresh_resume r ev pc s")
          from busy_inv_timer_resumed[OF inv True _ refresh_resume_flags[OF st]] Refresh
          show ?thesis using sys Deliver True st alive by (simp add: step_def)
        next
          case (Manual r pc)
          obtain p s' where st: "refresh_resume r ev pc s = (p, s')" by (cases "refresh_resume r ev pc s")
          from busy_inv_resumed[OF inv True _ refreshes_mk(3) refresh_resume_flags[OF st]] Manual
          show ?thesis using sys Deliver True st alive by (simp add: step_def)
        next
          case (Query r pc)
          obtain p s' where st: "getMatches_resume r ev pc s = (p, s')"
            by (cases "getMatches_resume r ev pc s")
          from busy_inv_resumed[OF inv True _ refreshes_mk(2) getMatches_resume_flags[OF st]] Query
          show ?thesis using sys Deliver True st alive by (simp add: step_def)
        next
          case (Details pc)
          obtain p s' where st: "getMatchDetails_resume ev pc s = (p, s')"
            by (cases "getMatchDetails_resume ev pc s")
          from getMatchDetails_resume_outcome[OF st]
          have "isUpdating r (cache s') = isUpdating r (cache s)" for r by (rule md_outcome_flags)
          from busy_inv_resumed_details[OF inv True Details this, of p]
          show ?thesis using sys Deliver True Details st alive by (simp add: step_def)
        qed
      qed
    qed
  qed
qed

lemma busy_inv_run: "busy_inv sys \<Longrightarrow> busy_inv (run as sys)"
  unfolding run_def by (induction as arbitrary: sys) (simp_all add: busy_inv_step)

lemma busy_inv_initial: "busy_inv (initial_system ks)"
  by (simp add: busy_inv_def initial_system_def initial_state_def empty_cache_def)


lemmas sys_eval = run_def step_def started_def resumed_def timer_resumed_def exit_process_def
  refresh_start_def refresh_resume_def
  refresh_loop_def refresh_catch_def refresh_return_cached_def refresh_process_def
  getMatches_start_def getMatches_resume_def
  throttleApiCall_enter_def throttleApiCall_resume_def THROTTLE_DELAY_def
  initial_system_def initial_state_def empty_cache_def or_empty_def
  getMatchDetails_start_def getMatchDetails_resume_def makeApiCall_loop_def

text \<open>
  Claim C3. From the initial state, after any sequence of calls and events, each region
  has at most one task refreshing it, and has one exactly when its busy flag is up; a
  trigger for a region that is being refreshed changes nothing and starts no task. An
  updater that finds its flag up returns \<open>undefined\<close> at once and leaves the state as
  it is; one that finds it down raises it in its first part, before it suspends; and
  whenever an updater ends, by whatever path, its flag is down.
\<close>

theorem one_refresh_per_region:
  "(case run acts (initial_system ks) of (s, ts) \<Rightarrow>
       refreshing r ts \<le> 1
     \<and> (isUpdating r (cache s) \<longleftrightarrow> refreshing r ts = 1)
     \<and> (refreshing r ts = 1 \<longrightarrow> step (TriggerRefresh r now) (s, ts) = (s, ts)))
   \<and> (isUpdating r (cache s0) \<longrightarrow> refresh_start r now s0 = (Finished (Resolved None), s0))
   \<and> (\<not> isUpdating r (cache s0) \<longrightarrow>
        (\<exists>pc s1. refresh_start r now s0 = (Suspended pc, s1) \<and> isUpdating r (cache s1)))
   \<and> (refresh_resume r ev pc s0 = (Finished out, s1) \<longrightarrow> \<not> isUpdating r (cache s1))"
proof -
  obtain s ts where sys: "run acts (initial_system ks) = (s, ts)" by (cases "run acts (initial_system ks)")
  have "busy_inv (s, ts)" using busy_inv_run[OF busy_inv_initial, of acts ks] sys by simp
  then have cnt: "refreshing r ts = (if isUpdating r (cache s) then 1 else 0)"
    by (simp add: busy_inv_iff)
  have start_busy: "refresh_start r now s' = (Finished (Resolved None), s')" if "isUpdating r (cache s')" for s'
    using that by (simp add: refresh_start_def)
  have a: "refreshing r ts \<le> 1" "isUpdating r (cache s) \<longleftrightarrow> refreshing r ts = 1"
    using cnt by auto
  have b: "refreshing r ts = 1 \<longrightarrow> step (TriggerRefresh r now) (s, ts) = (s, ts)"
    using a(2) start_busy[of s] by (auto simp: step_def started_def)
  have c: "\<not> isUpdating r (cache s0) \<longrightarrow>
        (\<exists>pc s1. refresh_start r now s0 = (Suspended pc, s1) \<and> isUpdating r (cache s1))"
  proof
    assume nb: "\<not> isUpdating r (cache s0)"
    obtain p t where st: "refresh_start r now s0 = (p, t)" by (cases "refresh_start r now s0")
    from refresh_start_flags[OF st] nb st show "\<exists>pc s1. refresh_start r now s0 = (Suspended pc, s1) \<and> isUpdating r (cache s1)"
      by auto
  qed
  have d: "refresh_resume r ev pc s0 = (Finished out, s1) \<longrightarrow> \<not> isUpdating r (cache s1)"
  proof
    assume "refresh_resume r ev pc s0 = (Finished out, s1)"
    from refresh_resume_flags[OF this] show "\<not> isUpdating r (cache s1)"
      by (simp add: flags_after_def)
  qed
  from a b c d start_busy[of s0] show ?thesis unfolding sys by simp
qed

theorem one_refresh_per_region_witness:
  "refreshing Current (snd (run [TriggerRefresh Current 50000] (initial_system [''A'']))) = 1
   \<and> step (TriggerRefresh Current 50001) (run [TriggerRefresh Current 50000] (initial_system [''A'']))
       = run [TriggerRefresh Current 50000] (initial_system [''A''])
   \<and> snd (run [TriggerRefresh Current 50000] (initial_system [''A''])) = [Refresh Current RAfterThrottle]
   \<and> isUpdating Current (cache (fst (run [TriggerRefresh Current 50000] (initial_system [''A'']))))"
proof -
  let ?sys = "run [TriggerRefresh Current 50000] (initial_system [''A''])"
  have e: "?sys = (set_isUpdating Current True (initial_state [''A''])\<lparr>lastApiCallTime := 50000\<rparr>,
                  [Refresh Current RAfterThrottle])"
    by (simp add: sys_eval)
  then have one: "refreshing Current (snd ?sys) = 1" by simp
  note t = one_refresh_per_region[where acts = "[TriggerRefresh Current 50000]" and ks = "[''A'']"
      and r = Current and now = 50001, THEN conjunct1]
  from t have "step (TriggerRefresh Current 50001) ?sys = ?sys"
    and "isUpdating Current (cache (fst ?sys))"
    unfolding e by simp_all
  with one e show ?thesis by simp
qed

section \<open>A failed refresh keeps the cached list\<close>

lemma cached_set_isUpdating [simp]: "cached r' (cache (set_isUpdating r b s)) = cached r' (cache s)"
  by (cases r; cases r'; simp)

lemma refresh_return_cached_lists:
  "refresh_return_cached r s = (p, s') \<Longrightarrow> cached r' (cache s') = cached r' (cache s)"
  by (auto simp: refresh_return_cached_def)

lemma refresh_catch_lists:
  "refresh_catch r e s = (p, s') \<Longrightarrow> cached r' (cache s') = cached r' (cache s)"
  by (auto simp: refresh_catch_def refresh_return_cached_def split: if_splits)

lemma refresh_loop_lists:
  "refresh_loop r k a n le s = (p, s') \<Longrightarrow> cached r' (cache s') = cached r' (cache s)"
  by (auto simp: refresh_loop_def dest: refresh_catch_lists split: if_splits)

lemma refresh_process_lists:
  assumes "refresh_process r k now body s = (p, s')"
    and "\<forall>b. body = Some b \<longrightarrow> status b \<noteq> ''success'' \<or> data b = None"
  shows "cached r' (cache s') = cached r' (cache s)"
  using assms
  by (auto simp: refresh_process_def refresh_return_cached_def split: option.splits if_splits)

lemma cached_keys [simp]: "cached r (cache (s\<lparr>keys := ks\<rparr>)) = cached r (cache s)"
  by simp

lemma refresh_resume_lists:
  assumes "refresh_resume r ev pc s = (p, s')"
    and ns: "\<forall>now b. ev = MatchesResponse now (HttpOk (Some b)) \<longrightarrow> status b \<noteq> ''success'' \<or> data b = None"
  shows "cached r' (cache s') = cached r' (cache s)"
proof (cases pc)
  case (RThrottle deadline)
  with assms(1) show ?thesis
    by (cases ev) (auto simp: refresh_resume_def split: if_splits)
next
  case RAfterThrottle
  show ?thesis
  proof (cases ev)
    case (Tick now)
    obtain res ks where g: "getApiKey now (keys s) = (res, ks)" by (cases "getApiKey now (keys s)")
    show ?thesis
    proof (cases res)
      case (Inl e)
      with assms(1) RAfterThrottle Tick g have "refresh_catch r e (s\<lparr>keys := ks\<rparr>) = (p, s')"
        by (simp add: refresh_resume_def)
      from refresh_catch_lists[OF this] show ?thesis by simp
    next
      case (Inr k)
      show ?thesis
      proof (cases "key_truthy k")
        case True
        with assms(1) RAfterThrottle Tick g Inr
        have "refresh_loop r (or_empty k) 0 (length (apiKeys ks)) None (s\<lparr>keys := ks\<rparr>) = (p, s')"
          by (simp add: refresh_resume_def)
        from refresh_loop_lists[OF this] show ?thesis by simp
      next
        case False
        with assms(1) RAfterThrottle Tick g Inr
        have "refresh_catch r (Error ''CRICKET_API_KEY is not configured'') (s\<lparr>keys := ks\<rparr>) = (p, s')"
          by (simp add: refresh_resume_def)
        from refresh_catch_lists[OF this] show ?thesis by simp
      qed
    qed
  qed (use assms(1) RAfterThrottle in \<open>auto simp: refresh_resume_def\<close>)
next
  case (RHttp k a n)
  show ?thesis
  proof (cases ev)
    case (MatchesResponse now res)
    show ?thesis
    proof (cases res)
      case (HttpOk body)
      with assms(1) RHttp MatchesResponse have pr: "refresh_process r k now body s = (p, s')"
        by (simp add: refresh_resume_def)
      from ns MatchesResponse HttpOk
      have "\<forall>b. body = Some b \<longrightarrow> status b \<noteq> ''success'' \<or> data b = None" by simp
      from refresh_process_lists[OF pr this] show ?thesis .
    next
      case (HttpErr error)
      show ?thesis
      proof (cases "isRateLimited error")
        case False
        with assms(1) RHttp MatchesResponse HttpErr have "refresh_catch r error s = (p, s')"
          by (simp add: refresh_resume_def)
        from refresh_catch_lists[OF this] show ?thesis .
      next
        case True
        obtain res' ks where g: "getApiKey now (markKeyAsRateLimited k now (keys s)) = (res', ks)"
          by (cases "getApiKey now (markKeyAsRateLimited k now (keys s))")
        show ?thesis
        proof (cases res')
          case (Inl e)
          with assms(1) RHttp MatchesResponse HttpErr True g
          have "refresh_catch r e (s\<lparr>keys := ks\<rparr>) = (p, s')"
            by (simp add: refresh_resume_def)
          from refresh_catch_lists[OF this] show ?thesis by simp
        next
          case (Inr k')
          show ?thesis
          proof (cases "key_truthy k'")
            case kt: True
            with assms(1) RHttp MatchesResponse HttpErr True g Inr show ?thesis
              by (auto simp: refresh_resume_def)
          next
            case kf: False
            with assms(1) RHttp MatchesResponse HttpErr True g Inr
            have "refresh_catch r (Error ''All API keys are rate limited'') (s\<lparr>keys := ks\<rparr>) = (p, s')"
              by (simp add: refresh_resume_def)
            from refresh_catch_lists[OF this] show ?thesis by simp
          qed
        qed
      qed
    qed
  qed (use assms(1) RHttp in \<open>auto simp: refresh_resume_def\<close>)
next
  case (RDelay deadline k a n le)
  show ?thesis
  proof (cases ev)
    case (Timer now)
    show ?thesis
    proof (cases "now < deadline")
      case True
      with assms(1) RDelay Timer show ?thesis by (auto simp: refresh_resume_def)
    next
      case False
      with assms(1) RDelay Timer have "refresh_loop r k (a + 1) n (Some le) s = (p, s')"
        by (simp add: refresh_resume_def)
      from refresh_loop_lists[OF this] show ?thesis .
    qed
  qed (use assms(1) RDelay in \<open>auto simp: refresh_resume_def\<close>)
qed

lemma refresh_start_lists:
  "refresh_start r now s = (p, s') \<Longrightarrow> cached r' (cache s') = cached r' (cache s)"
  by (auto simp: refresh_start_def Let_def throttleApiCall_enter_def split: if_splits)

text \<open>
  What the updaters do right. A part of an updater that is not the arrival of a success
  body with data (so: its first part, a transport error, a failure body, a timer, a key
  that cannot be taken) leaves both cached lists as they were; and if the region's cached
  list is not empty, the list query of the region then returns that list at once.
\<close>

lemma refresh_failure_keeps_lists:
  assumes "refresh_start r now s = (p, s')
         \<or> (refresh_resume r ev pc s = (p, s')
            \<and> (\<forall>t b. ev = MatchesResponse t (HttpOk (Some b)) \<longrightarrow> status b \<noteq> ''success'' \<or> data b = None))"
  shows "current (cache s') = current (cache s) \<and> upcoming (cache s') = upcoming (cache s)
       \<and> (\<forall>l. cached r (cache s) = Some l \<and> l \<noteq> [] \<longrightarrow>
             getMatches_start r now' s' = (Finished (Resolved l), s'))"
proof -
  have k: "cached r' (cache s') = cached r' (cache s)" for r'
    using assms refresh_start_lists[of r now s p s' r'] refresh_resume_lists[of r ev pc s p s' r']
    by blast
  from k[of Current] k[of Upcoming]
  have c: "current (cache s') = current (cache s)" "upcoming (cache s') = upcoming (cache s)"
    by simp_all
  from k[of r]
  have "\<forall>l. cached r (cache s) = Some l \<and> l \<noteq> [] \<longrightarrow>
             getMatches_start r now' s' = (Finished (Resolved l), s')"
    by (auto simp: getMatches_start_def)
  with c show ?thesis by simp
qed


text \<open>
  The Current cache holds ten entries and the request of a refresh fails with a connection
  reset: \<open>getCurrentMatches\<close> returns the ten entries.
\<close>

lemma connection_reset_keeps_cache:
  "fst (getCurrentMatches_start 80000
     (snd (updateCurrentMatchesCache_resume
            (MatchesResponse 70000 (HttpErr (Error ''read ECONNRESET''))) (RHttp ''A'' 0 1) stale_state)))
   = Finished (Resolved ten_matches)
   \<and> length ten_matches = 10"
proof -
  obtain p s' where r: "refresh_resume Current
       (MatchesResponse 70000 (HttpErr (Error ''read ECONNRESET''))) (RHttp ''A'' 0 1) stale_state = (p, s')"
    by (cases "refresh_resume Current
       (MatchesResponse 70000 (HttpErr (Error ''read ECONNRESET''))) (RHttp ''A'' 0 1) stale_state")
  have c: "cached Current (cache stale_state) = Some ten_matches" "ten_matches \<noteq> []"
    by (simp_all add: stale_state_def ten_matches_def)
  from refresh_failure_keeps_lists[where r = Current and s = stale_state and p = p and s' = s'
      and ev = "MatchesResponse 70000 (HttpErr (Error ''read ECONNRESET''))" and pc = "RHttp ''A'' 0 1"
      and now' = 80000] r c
  have "getMatches_start Current 80000 s' = (Finished (Resolved ten_matches), s')" by simp
  with r show ?thesis
    by (simp add: getCurrentMatches_start_def updateCurrentMatchesCache_resume_def ten_matches_def)
qed

lemmas sys_eval2 = sys_eval getApiKey_def getApiKey_loop.simps key_at_def next_index_def isBlocked_def
  key_truthy_def initial_keys_def

lemma rate_limited_429:
  "isRateLimited \<lparr>message = ''Request failed with status code 429'', response_reason = None,
                   response_status = Some 429\<rparr>"
  by (simp add: isRateLimited_def)

lemma rate_limited_timed_out: "isRateLimited timed_out"
  by (simp add: timed_out_def isRateLimited_def mentionsRateLimit_def errorMessage_def Error_def
      toLowerCase_def lower_char_def upper_chars_def lower_chars_def Let_def)

text \<open>
  Claim C8 does not hold of the code. The Current cache holds ten entries, which
  \<open>getCurrentMatches\<close> returns. The background timer calls the updater, whose
  request goes out with the only key and times out: axios raises
  \<open>timeout of 30000ms exceeded\<close>. For the word \<open>exceeded\<close> the updater takes
  this for a rate limit (as it does an answer with status 429): it blocks the key and
  waits a second, has no attempt left and throws the error to its outer \<open>catch\<close>
  block. There the rate-limited branch reads \<open>apiKey\<close>, which is declared inside the
  \<open>try\<close> block and out of scope, and the updater rejects with a ReferenceError.
  Nothing handles the rejection, the process ends, and the ten entries are served no
  more: a call of \<open>getCurrentMatches\<close> finds no process to answer it.
\<close>

theorem timed_out_timer_refresh_loses_cache:
  "current (cache ten_cached) = Some ten_matches \<and> length ten_matches = 10
   \<and> getCurrentMatches_start 79000 ten_cached = (Finished (Resolved ten_matches), ten_cached)
   \<and> snd (run timer_refresh (ten_cached, [])) = [Refresh Current (RDelay 111000 ''A'' 0 1 timed_out)]
   \<and> current (cache (fst (run timer_refresh (ten_cached, [])))) = Some ten_matches
   \<and> fst (updateCurrentMatchesCache_resume (Timer 111000) (RDelay 111000 ''A'' 0 1 timed_out)
            (fst (run timer_refresh (ten_cached, []))))
       = Finished (Rejected ReferenceError_apiKey)
   \<and> snd (run (timer_refresh @ [Deliver 0 (Timer 111000)]) (ten_cached, [])) = []
   \<and> exited (fst (run (timer_refresh @ [Deliver 0 (Timer 111000)]) (ten_cached, [])))
   \<and> current (cache (fst (run (timer_refresh @ [Deliver 0 (Timer 111000)]) (ten_cached, [])))) = None
   \<and> run (timer_refresh @ [Deliver 0 (Timer 111000), CallGetMatches Current 112000]) (ten_cached, [])
       = run (timer_refresh @ [Deliver 0 (Timer 111000)]) (ten_cached, [])"
  using rate_limited_timed_out
  by (simp add: sys_eval2 ten_cached_def ten_matches_def timer_refresh_def markKeyAsRateLimited_def
      blockDuration_def getCurrentMatches_start_def updateCurrentMatchesCache_resume_def)
section \<open>getMatchDetails keeps the last value\<close>


















section \<open>The throttle\<close>

text \<open>
  A caller alone at the throttle is held until the delay has passed since the timestamp it
  read, if its timer fires no earlier than asked.
\<close>

lemma throttle_single_caller_spacing:
  "throttleApiCall_enter now lastCall = (None, l) \<Longrightarrow> lastCall + THROTTLE_DELAY \<le> l"
  "throttleApiCall_enter now lastCall = (Some w, l) \<Longrightarrow> now + w \<le> t \<Longrightarrow>
     lastCall + THROTTLE_DELAY \<le> throttleApiCall_resume t l"
  by (auto simp: throttleApiCall_enter_def throttleApiCall_resume_def Let_def split: if_splits)

text \<open>
  Claim C2 does not hold of the code. An upstream call is made at time 100000. Three
  seconds later both updaters are triggered together; each reads the same timestamp and
  sets a timer for 110000, and the timestamp is only written after the wait. Both timers
  fire at 110000, each caller records 110000 as its start, and both requests go out at
  that time, not ten seconds apart.
\<close>

theorem throttle_lets_two_calls_start_together:
  "run [CallGetMatchDetails ''m1'' 100000, TriggerRefresh Current 103000, TriggerRefresh Upcoming 103000]
       (initial_system [''A''])
     = ((initial_state [''A''])
          \<lparr>lastApiCallTime := 100000,
           cache := empty_cache\<lparr>isUpdatingCurrent := True, isUpdatingUpcoming := True\<rparr>\<rparr>,
        [Details (MStartTick ''m1''), Refresh Current (RThrottle 110000), Refresh Upcoming (RThrottle 110000)])
   \<and> lastApiCallTime (fst (run [CallGetMatchDetails ''m1'' 100000, TriggerRefresh Current 103000,
          TriggerRefresh Upcoming 103000, Deliver 1 (Timer 110000)] (initial_system [''A'']))) = 110000
   \<and> lastApiCallTime (fst (run [CallGetMatchDetails ''m1'' 100000, TriggerRefresh Current 103000,
          TriggerRefresh Upcoming 103000, Deliver 1 (Timer 110000), Deliver 2 (Timer 110000)]
          (initial_system [''A'']))) = 110000
   \<and> snd (run [CallGetMatchDetails ''m1'' 100000, TriggerRefresh Current 103000,
          TriggerRefresh Upcoming 103000, Deliver 1 (Timer 110000), Deliver 2 (Timer 110000),
          Deliver 1 (Tick 110000), Deliver 2 (Tick 110000)] (initial_system [''A'']))
     = [Details (MStartTick ''m1''), Refresh Current (RHttp ''A'' 0 1), Refresh Upcoming (RHttp ''A'' 0 1)]"
  by (simp add: sys_eval2)

section \<open>The current batting state\<close>

lemma battingLoop_lists:
  "fst (foldl battingStep (cur, dis, names) es) = cur @ battersIn es
   \<and> fst (snd (foldl battingStep (cur, dis, names) es)) = dis @ battersOut es"
proof (induction es arbitrary: cur dis names)
  case Nil
  then show ?case by (simp add: battersIn_def battersOut_def List.map_filter_simps)
next
  case (Cons e es)
  show ?case
  proof (cases "batsmanDataOf e")
    case None
    then show ?thesis using Cons.IH[of cur dis names]
      by (simp add: battingStep_def battersIn_def battersOut_def List.map_filter_simps)
  next
    case (Some d)
    show ?thesis
    proof (cases "dismissed e")
      case True
      with Some Cons.IH[of cur "dis @ [d]" "List.insert (toLowerCase (bd_name d)) names"]
      show ?thesis by (simp add: battingStep_def battersIn_def battersOut_def List.map_filter_simps)
    next
      case False
      with Some Cons.IH[of "cur @ [d]" dis "List.insert (toLowerCase (bd_name d)) names"]
      show ?thesis by (simp add: battingStep_def battersIn_def battersOut_def List.map_filter_simps)
    qed
  qed
qed

lemma battingLoop_eq:
  "battingLoop es = (cur, dis, names) \<Longrightarrow> cur = battersIn es \<and> dis = battersOut es"
  using battingLoop_lists[of "[]" "[]" "[]" es] by (simp add: battingLoop_def)

text \<open>
  Claim C10. When \<open>organizeBattingData\<close> returns a record, its \<open>currentBatsmen\<close> are
  the first two of the named batters of the current inning that are not dismissed, in
  batting order; there are never more than two.
\<close>

theorem currentBatsmen_capped_at_two:
  assumes "organizeBattingData scd sq md = Some bd"
  shows "\<exists>sc. scorecardOf scd = Some sc \<and> sc \<noteq> []
           \<and> currentBatsmen bd =
               take 2 (List.map_filter batsmanDataOf
                 (filter (\<lambda>e. \<not> dismissed e) (or_empty (batting (sc ! currentInningIndex sc)))))
           \<and> length (currentBatsmen bd) \<le> 2"
proof -
  from assms obtain sc where sc: "scorecardOf scd = Some sc" "sc \<noteq> []"
    by (auto simp: organizeBattingData_def split: option.splits if_splits)
  let ?es = "or_empty (batting (sc ! currentInningIndex sc))"
  obtain cur dis names where l: "battingLoop ?es = (cur, dis, names)"
    by (cases "battingLoop ?es") auto
  from battingLoop_eq[OF l] have "cur = battersIn ?es" by simp
  moreover from assms sc l have "currentBatsmen bd = take 2 cur"
    by (auto simp: organizeBattingData_def Let_def)
  ultimately have "currentBatsmen bd = take 2 (battersIn ?es)" by simp
  then show ?thesis using sc by (auto simp: battersIn_def)
qed

lemmas batting_eval = organizeBattingData_def scorecardOf_def currentInningIndex_def stillBatting_def
  battingLoop_def battingStep_def batsmanDataOf_def dismissed_def get_prop_def or_empty_def
  card_of_def batting_row_def success_def js_or_def str_truthy_def toLowerCase_def
  lower_char_def upper_chars_def lower_chars_def raw_match_def nth_str_def otherTeam_def scoreProp_def Let_def

text \<open>Three batters are at the crease; the record lists the first two.\<close>

theorem currentBatsmen_capped_at_two_witness:
  "map_option (\<lambda>bd. map bd_name (currentBatsmen bd))
     (organizeBattingData (Some three_in) None (raw_match (Some True) (Some False) None ''m1''))
   = Some [''B1'', ''B2'']"
proof -
  have e: "map_option (\<lambda>bd. map bd_name (currentBatsmen bd))
     (organizeBattingData (Some three_in) None (raw_match (Some True) (Some False) None ''m1''))
   = Some [''B1'', ''B2'']"
    by (simp add: three_in_def batting_eval)
  then obtain bd where bd: "organizeBattingData (Some three_in) None
      (raw_match (Some True) (Some False) None ''m1'') = Some bd" by auto
  from currentBatsmen_capped_at_two[OF bd] have "length (currentBatsmen bd) \<le> 2" by blast
  with e show ?thesis by simp
qed

text \<open>
  What the record holds besides: the dismissed batters are the first five dismissed of
  the inning in batting order, and the bowlers are the named ones among the inning's
  first two.
\<close>

lemma organizeBattingData_parts:
  assumes "organizeBattingData scd sq md = Some bd"
  shows "\<exists>sc. scorecardOf scd = Some sc \<and> sc \<noteq> []
           \<and> dismissedBatsmen bd = take 5 (battersOut (or_empty (batting (sc ! currentInningIndex sc))))
           \<and> currentBowlers bd = filter (\<lambda>b. bl_name b \<noteq> [])
                 (map bowlerDataOf (take 2 (or_empty (bowling (sc ! currentInningIndex sc)))))"
proof -
  from assms obtain sc where sc: "scorecardOf scd = Some sc" "sc \<noteq> []"
    by (auto simp: organizeBattingData_def split: option.splits if_splits)
  let ?es = "or_empty (batting (sc ! currentInningIndex sc))"
  obtain cur dis names where l: "battingLoop ?es = (cur, dis, names)"
    by (cases "battingLoop ?es") auto
  from battingLoop_eq[OF l] have "dis = battersOut ?es" by simp
  moreover from assms sc l have "dismissedBatsmen bd = take 5 dis"
    "currentBowlers bd = filter (\<lambda>b. bl_name b \<noteq> [])
                 (map bowlerDataOf (take 2 (or_empty (bowling (sc ! currentInningIndex sc)))))"
    by (auto simp: organizeBattingData_def Let_def)
  ultimately show ?thesis using sc by auto
qed


text \<open>
  The next batter is the first member of the batting side's squad, in list order, whose
  name is not empty and is not, in lower case, the name of a batter of the inning.
\<close>

lemma battingLoop_names:
  "set (snd (snd (foldl battingStep (cur, dis, names) es))) =
     set names \<union> (\<lambda>d. toLowerCase (bd_name d)) ` set (List.map_filter batsmanDataOf es)"
proof (induction es arbitrary: cur dis names)
  case Nil
  then show ?case by simp
next
  case (Cons e es)
  show ?case
  proof (cases "batsmanDataOf e")
    case None
    then show ?thesis using Cons.IH[of cur dis names] by (simp add: battingStep_def)
  next
    case (Some d)
    show ?thesis
    proof (cases "dismissed e")
      case True
      with Some Cons.IH[of cur "dis @ [d]" "List.insert (toLowerCase (bd_name d)) names"]
      show ?thesis by (auto simp: battingStep_def)
    next
      case False
      with Some Cons.IH[of "cur @ [d]" dis "List.insert (toLowerCase (bd_name d)) names"]
      show ?thesis by (auto simp: battingStep_def)
    qed
  qed
qed

lemma firstNotBatted_find:
  "firstNotBatted ps names =
     map_option (\<lambda>p. or_empty (name p))
       (find (\<lambda>p. or_empty (name p) \<noteq> [] \<and> toLowerCase (or_empty (name p)) \<notin> set names) ps)"
  by (induction ps) (auto simp: or_empty_def Let_def split: option.splits)

lemma organizeBattingData_nextBatsman:
  assumes "organizeBattingData scd sq md = Some bd"
  shows "\<exists>sc. scorecardOf scd = Some sc \<and> sc \<noteq> []
           \<and> nextBatsman bd =
               map_option (\<lambda>p. or_empty (name p))
                 (find (\<lambda>p. or_empty (name p) \<noteq> [] \<and>
                          toLowerCase (or_empty (name p)) \<notin>
                            (\<lambda>d. toLowerCase (bd_name d)) `
                              set (List.map_filter batsmanDataOf
                                     (or_empty (batting (sc ! currentInningIndex sc)))))
                    (case sq of None \<Rightarrow> []
                     | Some s \<Rightarrow> if currentInningIndex sc = 0 then team1Squad s else team2Squad s))"
proof -
  from assms obtain sc where sc: "scorecardOf scd = Some sc" "sc \<noteq> []"
    by (auto simp: organizeBattingData_def split: option.splits if_splits)
  let ?es = "or_empty (batting (sc ! currentInningIndex sc))"
  obtain cur dis names where l: "battingLoop ?es = (cur, dis, names)"
    by (cases "battingLoop ?es") auto
  have n: "set names = (\<lambda>d. toLowerCase (bd_name d)) ` set (List.map_filter batsmanDataOf ?es)"
    using battingLoop_names[of "[]" "[]" "[]" ?es] l by (simp add: battingLoop_def)
  from assms sc l have "nextBatsman bd = firstNotBatted
      (case sq of None \<Rightarrow> [] | Some s \<Rightarrow> if currentInningIndex sc = 0 then team1Squad s else team2Squad s) names"
    by (auto simp: organizeBattingData_def Let_def)
  then have "nextBatsman bd =
               map_option (\<lambda>p. or_empty (name p))
                 (find (\<lambda>p. or_empty (name p) \<noteq> [] \<and>
                          toLowerCase (or_empty (name p)) \<notin>
                            (\<lambda>d. toLowerCase (bd_name d)) ` set (List.map_filter batsmanDataOf ?es))
                    (case sq of None \<Rightarrow> []
                     | Some s \<Rightarrow> if currentInningIndex sc = 0 then team1Squad s else team2Squad s))"
    unfolding firstNotBatted_find n .
  with sc show ?thesis by blast
qed

text \<open>
  Claim C9 does not hold of the code. Six batters \<open>B1\<close> to \<open>B6\<close> of the inning are
  dismissed, in that order. The record lists \<open>B1\<close> to \<open>B5\<close>, oldest first: the most
  recent dismissal is dropped, where the claim has it first.
\<close>

theorem dismissedBatsmen_are_the_first_five:
  "map_option (\<lambda>bd. map bd_name (dismissedBatsmen bd))
     (organizeBattingData (Some six_out) None (raw_match (Some True) (Some False) None ''m1''))
   = Some [''B1'', ''B2'', ''B3'', ''B4'', ''B5'']"
  by (simp add: six_out_def batting_eval)

section \<open>The merge of the player sources\<close>

lemma get_prop_update: "get_prop (AList.update k v al) f = (if f = k then v else get_prop al f)"
  by (simp add: get_prop_def update_conv')

lemma get_prop_Cons: "get_prop ((k, v) # b) f = (if f = k then v else get_prop b f)"
  by (simp add: get_prop_def)

lemma spread_Cons: "spread a ((k, v) # b) = spread (AList.update k v a) b"
  by (simp add: spread_def)

lemma get_prop_spread:
  "distinct (map fst b) \<Longrightarrow>
     get_prop (spread a b) f = (if f \<in> fst ` set b then get_prop b f else get_prop a f)"
proof (induction b arbitrary: a)
  case Nil
  then show ?case by (simp add: spread_def)
next
  case (Cons x b)
  obtain k v where x: "x = (k, v)" by (cases x)
  from Cons.prems x have d: "distinct (map fst b)" and nk: "k \<notin> fst ` set b" by auto
  have "get_prop (spread a (x # b)) f = get_prop (spread (AList.update k v a) b) f"
    by (simp add: x spread_Cons)
  also have "\<dots> = (if f \<in> fst ` set b then get_prop b f else get_prop (AList.update k v a) f)"
    by (rule Cons.IH[OF d])
  also have "\<dots> = (if f \<in> fst ` set (x # b) then get_prop (x # b) f else get_prop a f)"
    using nk by (auto simp: x get_prop_update get_prop_Cons)
  finally show ?case .
qed

lemma mergeScorePlayer_at:
  "map_of (mergeScorePlayer p m) key =
     (if key_of p = Some key
      then Some (case map_of m key of None \<Rightarrow> p | Some ex \<Rightarrow> merged ex p)
      else map_of m key)"
  by (auto simp: mergeScorePlayer_def key_of_def merged_def Let_def update_conv'
      split: option.splits)

lemma mergeScorecardPlayer_at:
  "map_of (mergeScorecardPlayer p m) key =
     (if key_of p = Some key
      then Some (case map_of m key of None \<Rightarrow> p | Some ex \<Rightarrow> mergedKeepImage ex p)
      else map_of m key)"
  by (auto simp: mergeScorecardPlayer_def key_of_def mergedKeepImage_def Let_def update_conv'
      split: option.splits)

lemma merged_field:
  "distinct (map fst (props p)) \<Longrightarrow>
     get_prop (props (merged ex p)) f = (if carries p f then get_prop (props p) f else get_prop (props ex) f)"
  by (simp add: merged_def carries_def get_prop_spread)

lemma mergedKeepImage_field:
  "distinct (map fst (props p)) \<Longrightarrow> f \<noteq> ''image'' \<Longrightarrow>
     get_prop (props (mergedKeepImage ex p)) f =
       (if carries p f then get_prop (props p) f else get_prop (props ex) f)"
  by (simp add: mergedKeepImage_def carries_def get_prop_spread get_prop_update)

lemma mergedKeepImage_image:
  "truthy (get_prop (props ex) ''image'') \<Longrightarrow>
     get_prop (props (mergedKeepImage ex p)) ''image'' = get_prop (props ex) ''image''"
  by (simp add: mergedKeepImage_def get_prop_update js_or_def)

lemma latest_Cons: "latest f v (p # ps) = latest f (if carries p f then get_prop (props p) f else v) ps"
  by (simp add: latest_def)

lemma latest_Nil: "latest f v [] = v"
  by (simp add: latest_def)

lemma latest_append: "latest f v (ps @ qs) = latest f (latest f v ps) qs"
  by (simp add: latest_def)

lemma fold_mergeScorePlayer:
  assumes "map_of m key = Some ex" and "\<forall>p\<in>set ps. distinct (map fst (props p))"
  shows "\<exists>e. map_of (fold mergeScorePlayer ps m) key = Some e
          \<and> (\<forall>f. get_prop (props e) f =
                  latest f (get_prop (props ex) f) (filter (\<lambda>p. key_of p = Some key) ps))"
  using assms
proof (induction ps arbitrary: m ex)
  case Nil
  then show ?case by (simp add: latest_Nil)
next
  case (Cons p ps)
  show ?case
  proof (cases "key_of p = Some key")
    case False
    with Cons.prems(1) have "map_of (mergeScorePlayer p m) key = Some ex"
      by (simp add: mergeScorePlayer_at)
    from Cons.IH[OF this] Cons.prems(2) False show ?thesis by simp
  next
    case True
    with Cons.prems(1) have at: "map_of (mergeScorePlayer p m) key = Some (merged ex p)"
      by (simp add: mergeScorePlayer_at)
    from Cons.prems(2) have d: "distinct (map fst (props p))" by simp
    from Cons.IH[OF at] Cons.prems(2)
    obtain e where e: "map_of (fold mergeScorePlayer ps (mergeScorePlayer p m)) key = Some e"
      "\<forall>f. get_prop (props e) f =
            latest f (get_prop (props (merged ex p)) f) (filter (\<lambda>p. key_of p = Some key) ps)"
      by auto
    from e(2) have "\<forall>f. get_prop (props e) f =
            latest f (get_prop (props ex) f) (filter (\<lambda>p. key_of p = Some key) (p # ps))"
      using True by (simp add: latest_Cons merged_field[OF d])
    with e(1) show ?thesis by simp
  qed
qed

lemma fold_mergeScorecardPlayer:
  assumes "map_of m key = Some ex" and "\<forall>p\<in>set ps. distinct (map fst (props p))"
  shows "\<exists>e. map_of (fold mergeScorecardPlayer ps m) key = Some e
          \<and> (\<forall>f. f \<noteq> ''image'' \<longrightarrow> get_prop (props e) f =
                  latest f (get_prop (props ex) f) (filter (\<lambda>p. key_of p = Some key) ps))
          \<and> (truthy (get_prop (props ex) ''image'') \<longrightarrow>
                get_prop (props e) ''image'' = get_prop (props ex) ''image'')"
  using assms
proof (induction ps arbitrary: m ex)
  case Nil
  then show ?case by (simp add: latest_Nil)
next
  case (Cons p ps)
  show ?case
  proof (cases "key_of p = Some key")
    case False
    with Cons.prems(1) have "map_of (mergeScorecardPlayer p m) key = Some ex"
      by (simp add: mergeScorecardPlayer_at)
    from Cons.IH[OF this] Cons.prems(2) False show ?thesis by simp
  next
    case True
    with Cons.prems(1) have at: "map_of (mergeScorecardPlayer p m) key = Some (mergedKeepImage ex p)"
      by (simp add: mergeScorecardPlayer_at)
    from Cons.prems(2) have d: "distinct (map fst (props p))" by simp
    from Cons.IH[OF at] Cons.prems(2)
    obtain e where e: "map_of (fold mergeScorecardPlayer ps (mergeScorecardPlayer p m)) key = Some e"
      "\<forall>f. f \<noteq> ''image'' \<longrightarrow> get_prop (props e) f =
            latest f (get_prop (props (mergedKeepImage ex p)) f) (filter (\<lambda>p. key_of p = Some key) ps)"
      "truthy (get_prop (props (mergedKeepImage ex p)) ''image'') \<longrightarrow>
         get_prop (props e) ''image'' = get_prop (props (mergedKeepImage ex p)) ''image''"
      by auto
    from e(2) have a: "\<forall>f. f \<noteq> ''image'' \<longrightarrow> get_prop (props e) f =
            latest f (get_prop (props ex) f) (filter (\<lambda>p. key_of p = Some key) (p # ps))"
      using True by (simp add: latest_Cons mergedKeepImage_field[OF d])
    from e(3) have b: "truthy (get_prop (props ex) ''image'') \<longrightarrow>
                get_prop (props e) ''image'' = get_prop (props ex) ''image''"
      by (simp add: mergedKeepImage_image)
    from e(1) a b show ?thesis by simp
  qed
qed

lemma addMatchDataPlayer_keeps:
  "map_of m k = Some e \<Longrightarrow> map_of (addMatchDataPlayer rp m) k = Some e"
  by (auto simp: addMatchDataPlayer_def Let_def update_conv' split: option.splits)

lemma fold_addMatchDataPlayer_keeps:
  "map_of m k = Some e \<Longrightarrow> map_of (fold addMatchDataPlayer raw m) k = Some e"
  by (induction raw arbitrary: m) (simp_all add: addMatchDataPlayer_keeps)


lemma latest_not_carried: "\<forall>p\<in>set ps. \<not> carries p f \<Longrightarrow> latest f v ps = v"
  by (induction ps arbitrary: v) (simp_all add: latest_Nil latest_Cons)

lemma scorecardBatsman_props:
  "scorecardBatsman e = Some p \<Longrightarrow>
     distinct (map fst (props p)) \<and> (\<forall>f\<in>set squadOnlyFields. \<not> carries p f)"
  by (auto simp: scorecardBatsman_def carries_def squadOnlyFields_def split: option.splits if_splits)

lemma scorecardBowler_props:
  "scorecardBowler e = Some p \<Longrightarrow>
     distinct (map fst (props p)) \<and> (\<forall>f\<in>set squadOnlyFields. \<not> carries p f)"
  by (auto simp: scorecardBowler_def carries_def squadOnlyFields_def split: option.splits if_splits)

lemma scoreBatsman_props:
  "distinct (map fst (props (scoreBatsman b))) \<and> (\<forall>f\<in>set squadOnlyFields. \<not> carries (scoreBatsman b) f)"
  by (simp add: scoreBatsman_def carries_def squadOnlyFields_def)

lemma scoreBowler_props:
  "distinct (map fst (props (scoreBowler b))) \<and> (\<forall>f\<in>set squadOnlyFields. \<not> carries (scoreBowler b) f)"
  by (simp add: scoreBowler_def carries_def squadOnlyFields_def)

lemma in_set_map_filter: "y \<in> set (List.map_filter f xs) \<longleftrightarrow> (\<exists>x\<in>set xs. f x = Some y)"
  by (induction xs) (auto split: option.splits)

lemma extractPlayersFromScorecard_props:
  assumes "p \<in> set (extractPlayersFromScorecard scd)"
  shows "distinct (map fst (props p)) \<and> (\<forall>f\<in>set squadOnlyFields. \<not> carries p f)"
proof -
  from assms have "(\<exists>e. scorecardBatsman e = Some p) \<or> (\<exists>e. scorecardBowler e = Some p)"
    by (auto simp: extractPlayersFromScorecard_def in_set_map_filter split: option.splits)
  then show ?thesis using scorecardBatsman_props scorecardBowler_props by blast
qed

lemma extractPlayersFromScore_props:
  assumes "p \<in> set (extractPlayersFromScore sc)"
  shows "distinct (map fst (props p)) \<and> (\<forall>f\<in>set squadOnlyFields. \<not> carries p f)"
proof -
  from assms obtain b where "p = scoreBatsman b \<or> p = scoreBowler b"
    by (auto simp: extractPlayersFromScore_def)
  then show ?thesis using scoreBatsman_props scoreBowler_props by blast
qed

lemma addSquadPlayer_at:
  "map_of (addSquadPlayer p m) key = (if key_of p = Some key then Some p else map_of m key)"
  by (auto simp: addSquadPlayer_def key_of_def update_conv' split: option.splits)

lemma fold_addSquadPlayer_present:
  "map_of m key = Some e0 \<Longrightarrow>
     \<exists>e1. map_of (fold addSquadPlayer ps m) key = Some e1
         \<and> (e1 = e0 \<or> (e1 \<in> set ps \<and> key_of e1 = Some key))"
proof (induction ps arbitrary: m e0)
  case Nil
  then show ?case by simp
next
  case (Cons p ps)
  show ?case
  proof (cases "key_of p = Some key")
    case True
    then have "map_of (addSquadPlayer p m) key = Some p" by (simp add: addSquadPlayer_at)
    from Cons.IH[OF this] True show ?thesis by auto
  next
    case False
    with Cons.prems have "map_of (addSquadPlayer p m) key = Some e0" by (simp add: addSquadPlayer_at)
    from Cons.IH[OF this] show ?thesis by auto
  qed
qed

lemma fold_addSquadPlayer_member:
  "sp \<in> set ps \<Longrightarrow> key_of sp = Some key \<Longrightarrow>
     \<exists>e1\<in>set ps. key_of e1 = Some key \<and> map_of (fold addSquadPlayer ps m) key = Some e1"
proof (induction ps arbitrary: m)
  case Nil
  then show ?case by simp
next
  case (Cons p ps)
  show ?case
  proof (cases "sp \<in> set ps")
    case True
    from Cons.IH[OF True Cons.prems(2), of "addSquadPlayer p m"] show ?thesis by auto
  next
    case False
    with Cons.prems have "sp = p" by simp
    with Cons.prems(2) have "map_of (addSquadPlayer p m) key = Some p" by (simp add: addSquadPlayer_at)
    from fold_addSquadPlayer_present[OF this, of ps] \<open>sp = p\<close> Cons.prems(2) show ?thesis by auto
  qed
qed

text \<open>
  Claim C6, as the code has it. For every player of the squad source with a name, the
  map holds after the squad pass a squad record \<open>e1\<close> under the lower-cased name, and
  an entry under that key after every later pass. The scorecard pass keeps the image of
  \<open>e1\<close> when it is truthy. In the final entry the fields that no scorecard or
  live-score record carries (\<open>battingStyle\<close>, \<open>bowlingStyle\<close>, \<open>country\<close>) have
  the values of \<open>e1\<close>, and each statistics field has the value of the latest
  scorecard or live-score record of that name which carries it (the value of \<open>e1\<close> if
  none does). The pass over the raw match-info players changes no entry that is present.
\<close>

theorem merge_keeps_squad_fields_latest_stats:
  assumes "sp \<in> set sqp" and "key_of sp = Some key"
  shows "\<exists>e1 e2 e.
       e1 \<in> set sqp \<and> key_of e1 = Some key
     \<and> map_of (fold addSquadPlayer sqp []) key = Some e1
     \<and> map_of (fold mergeScorecardPlayer (extractPlayersFromScorecard scd)
                 (fold addSquadPlayer sqp [])) key = Some e2
     \<and> map_of (allPlayersMap sqp (extractPlayersFromScorecard scd) (extractPlayersFromScore sc) raw) key
         = Some e
     \<and> (truthy (get_prop (props e1) ''image'') \<longrightarrow>
          get_prop (props e2) ''image'' = get_prop (props e1) ''image'')
     \<and> (\<forall>f\<in>set squadOnlyFields. get_prop (props e) f = get_prop (props e1) f)
     \<and> (\<forall>f\<in>set statFields. get_prop (props e) f =
           latest f (get_prop (props e1) f)
             (filter (\<lambda>p. key_of p = Some key)
                (extractPlayersFromScorecard scd @ extractPlayersFromScore sc)))
     \<and> (\<forall>k e'. map_of (fold mergeScorePlayer (extractPlayersFromScore sc)
                   (fold mergeScorecardPlayer (extractPlayersFromScorecard scd)
                      (fold addSquadPlayer sqp []))) k = Some e'
           \<longrightarrow> map_of (allPlayersMap sqp (extractPlayersFromScorecard scd)
                          (extractPlayersFromScore sc) raw) k = Some e')"
proof -
  let ?scp = "extractPlayersFromScorecard scd" and ?lsp = "extractPlayersFromScore sc"
  let ?m1 = "fold addSquadPlayer sqp []"
  let ?m2 = "fold mergeScorecardPlayer ?scp ?m1"
  let ?m3 = "fold mergeScorePlayer ?lsp ?m2"
  let ?m4 = "allPlayersMap sqp ?scp ?lsp raw"
  let ?mine = "\<lambda>p. key_of p = Some key"
  have m4: "?m4 = fold addMatchDataPlayer raw ?m3" by (simp add: allPlayersMap_def)
  from fold_addSquadPlayer_member[OF assms, of "[]"]
  obtain e1 where e1: "e1 \<in> set sqp" "key_of e1 = Some key" "map_of ?m1 key = Some e1" by auto
  have d2: "\<forall>p\<in>set ?scp. distinct (map fst (props p))"
    using extractPlayersFromScorecard_props by blast
  have d3: "\<forall>p\<in>set ?lsp. distinct (map fst (props p))"
    using extractPlayersFromScore_props by blast
  from fold_mergeScorecardPlayer[OF e1(3) d2]
  obtain e2 where e2: "map_of ?m2 key = Some e2"
    "\<forall>f. f \<noteq> ''image'' \<longrightarrow> get_prop (props e2) f = latest f (get_prop (props e1) f) (filter ?mine ?scp)"
    "truthy (get_prop (props e1) ''image'') \<longrightarrow> get_prop (props e2) ''image'' = get_prop (props e1) ''image''"
    by blast
  from fold_mergeScorePlayer[OF e2(1) d3]
  obtain e where e: "map_of ?m3 key = Some e"
    "\<forall>f. get_prop (props e) f = latest f (get_prop (props e2) f) (filter ?mine ?lsp)"
    by blast
  have keep: "\<forall>k e'. map_of ?m3 k = Some e' \<longrightarrow> map_of ?m4 k = Some e'"
    unfolding m4 by (simp add: fold_addMatchDataPlayer_keeps)
  with e(1) have e4: "map_of ?m4 key = Some e" by simp
  have both: "get_prop (props e) f = latest f (get_prop (props e1) f) (filter ?mine (?scp @ ?lsp))"
    if "f \<noteq> ''image''" for f
    using e(2) e2(2) that by (simp add: latest_append)
  have stats: "\<forall>f\<in>set statFields. get_prop (props e) f =
           latest f (get_prop (props e1) f) (filter ?mine (?scp @ ?lsp))"
    using both by (auto simp: statFields_def)
  have squad: "\<forall>f\<in>set squadOnlyFields. get_prop (props e) f = get_prop (props e1) f"
  proof
    fix f assume f: "f \<in> set squadOnlyFields"
    then have ni: "f \<noteq> ''image''" by (auto simp: squadOnlyFields_def)
    have "\<forall>p\<in>set (filter ?mine (?scp @ ?lsp)). \<not> carries p f"
      using f extractPlayersFromScorecard_props extractPlayersFromScore_props by auto
    from latest_not_carried[OF this] both[OF ni]
    show "get_prop (props e) f = get_prop (props e1) f" by simp
  qed
  from e1 e2(1,3) e4 squad stats keep show ?thesis by blast
qed

lemmas merge_eval = mergedPlayers_def allPlayersMap_def extractPlayersFromScorecard_def
  extractPlayersFromScore_def scorecardOf_def scorecardBatsman_def scorecardBowler_def
  scoreBatsman_def scoreBowler_def namedMembers_def has_name_def str_truthy_def
  addSquadPlayer_def mergeScorecardPlayer_def mergeScorePlayer_def addMatchDataPlayer_def
  playersFromMatchData_def extractSquadData_def formatPlayers_def formatPlayer_def teamPlayers_def
  spread_def get_prop_def js_or_def or_empty_def toLowerCase_def lower_char_def upper_chars_def lower_chars_def
  List.map_filter_simps card_of_def batting_row_def success_def raw_match_def Let_def
  sample_squad_def sample_card_def sample_score_def sample_match_def

text \<open>The sample player keeps the batting style of the squad and has the runs of the live score.\<close>

theorem merge_keeps_squad_fields_latest_stats_witness:
  "map_option (\<lambda>p. (get_prop (props p) ''battingStyle'', get_prop (props p) ''runs''))
     (map_of (allPlayersMap (players sample_squad) (extractPlayersFromScorecard (Some sample_card))
                (extractPlayersFromScore sample_score) []) ''virat kohli'')
   = Some (JStr ''Right Handed Bat'', JNum 55)
   \<and> map_option (\<lambda>p. get_prop (props p) ''image'')
       (map_of (fold mergeScorecardPlayer (extractPlayersFromScorecard (Some sample_card))
                  (fold addSquadPlayer (players sample_squad) [])) ''virat kohli'')
     = Some (JStr ''kohli.png'')"
proof -
  let ?sp = "\<lparr>name = Some ''Virat Kohli'',
              props = [(''id'', JStr ''p1''), (''role'', JStr ''WK-Batsman''),
                       (''battingStyle'', JStr ''Right Handed Bat''), (''bowlingStyle'', JUndefined),
                       (''country'', JUndefined), (''image'', JStr ''kohli.png'')]\<rparr>"
  have sq: "players sample_squad = [?sp]" by (simp add: merge_eval)
  have h1: "?sp \<in> set (players sample_squad)" unfolding sq by simp
  have h2: "key_of ?sp = Some ''virat kohli''"
    by (simp add: key_of_def toLowerCase_def lower_char_def upper_chars_def lower_chars_def)
  from merge_keeps_squad_fields_latest_stats[OF h1 h2, of "Some sample_card" sample_score "[]"]
  obtain e1 e where e: "e1 \<in> set (players sample_squad)"
    "map_of (allPlayersMap (players sample_squad) (extractPlayersFromScorecard (Some sample_card))
                (extractPlayersFromScore sample_score) []) ''virat kohli'' = Some e"
    "\<forall>f\<in>set squadOnlyFields. get_prop (props e) f = get_prop (props e1) f"
    by blast
  from e(1) have "e1 = ?sp" unfolding sq by simp
  with e(3) have "get_prop (props e) ''battingStyle'' = JStr ''Right Handed Bat''"
    by (simp add: squadOnlyFields_def get_prop_def)
  moreover have "map_option (\<lambda>p. get_prop (props p) ''runs'')
     (map_of (allPlayersMap (players sample_squad) (extractPlayersFromScorecard (Some sample_card))
                (extractPlayersFromScore sample_score) []) ''virat kohli'') = Some (JNum 55)"
    by (simp add: merge_eval)
  moreover have "map_option (\<lambda>p. get_prop (props p) ''image'')
       (map_of (fold mergeScorecardPlayer (extractPlayersFromScorecard (Some sample_card))
                  (fold addSquadPlayer (players sample_squad) [])) ''virat kohli'')
     = Some (JStr ''kohli.png'')"
    by (simp add: merge_eval)
  ultimately show ?thesis using e(2) by simp
qed


text \<open>
  Claim C6 as stated fails. The squad gives the sample player the role \<open>WK-Batsman\<close>
  and an image, and the scorecard, the first source with statistics, gives ten runs.
  In the merged record the role is that of the scorecard record, the image is the
  \<open>null\<close> of the live-score record, and the runs are the 55 of the live score.
\<close>

theorem merge_overwrites_squad_role_and_image_counterexample:
  "map (\<lambda>p. (get_prop (props p) ''role'', get_prop (props p) ''image'')) (players sample_squad)
     = [(JStr ''WK-Batsman'', JStr ''kohli.png'')]
   \<and> map (\<lambda>p. get_prop (props p) ''runs'') (extractPlayersFromScorecard (Some sample_card)) = [JNum 10]
   \<and> map_option (\<lambda>p. (get_prop (props p) ''role'', get_prop (props p) ''image'', get_prop (props p) ''runs''))
       (map_of (mergedPlayers sample_match (Some sample_squad) (Some sample_card)) ''virat kohli'')
     = Some (JStr ''Batsman'', JNull, JNum 55)"
  by (simp add: merge_eval)

end
